theory Spec2Isabelle
  imports Main
begin

section \<open>Hash router (packages/runtime/src/router.js)\<close>

text \<open>
  The router is a class with private mutable fields; it reads and writes the browser's
  \<^verbatim>\<open>document.location.hash\<close> and \<^verbatim>\<open>window.history\<close>, writes to the console and
  dispatches an event to its subscribers. The model is a record of the fields together
  with the part of the host the router touches, and every outward effect is appended to
  an ordered list of effects, so that both what happened and in which order can be stated.

  Asynchrony: \<^verbatim>\<open>navigateTo\<close> awaits each guard. The model runs one call to completion
  (no second call is interleaved at an await), and a guard is a function of its two
  arguments whose promise is fulfilled with a value.

  The call stack: a call of \<^verbatim>\<open>navigateTo\<close> that finds a redirect route calls itself
  before any await, so that every redirect route followed is one more call on the stack,
  and the engine throws a RangeError when the stack is exhausted. After an await the
  function goes on from the queue of jobs, on a stack of its own. The host gives the
  number of nested calls that every such run has room for.
\<close>

subsection \<open>Data\<close>

text \<open>A route definition: \<^verbatim>\<open>{ path, component, redirect? }\<close>; the component is opaque.\<close>

record route =
  path :: string
  component :: "nat option"
  redirect :: "string option"

text \<open>
  Modelled from the spec: \<^verbatim>\<open>makeRouteMatcher\<close> (route-matchers.js) is not part of the
  sources. A matcher carries its route, tests a path and extracts the parameters and the
  query of a path; it is a redirect matcher exactly when its route has a redirect target.
\<close>

record RouteMatcher =
  route :: route
  checkMatch :: "string \<Rightarrow> bool"
  extractParams :: "string \<Rightarrow> (string \<rightharpoonup> string)"
  extractQuery :: "string \<Rightarrow> (string \<rightharpoonup> string)"

definition isRedirect :: "RouteMatcher \<Rightarrow> bool" where
  "isRedirect m = (redirect (route m) \<noteq> None)"

text \<open>
  The values a guard's promise can be fulfilled with. An object lists its own properties
  (distinct keys).
\<close>

datatype jsvalue =
    JUndefined
  | JNull
  | JBool bool
  | JNumber int
  | JString string
  | JObject "(string \<times> jsvalue) list"

text \<open>
  What a call can throw: the TypeError of reading a property of \<^verbatim>\<open>undefined\<close> or
  \<^verbatim>\<open>null\<close>, and the RangeError of an exhausted call stack.
\<close>

datatype error = TypeError | RangeError

text \<open>
  \<^verbatim>\<open>result.path\<close>: reading a property of \<^verbatim>\<open>undefined\<close> or \<^verbatim>\<open>null\<close> throws a TypeError;
  a boolean, a number or a string has no property \<^verbatim>\<open>path\<close>.
\<close>

fun get_path :: "jsvalue \<Rightarrow> error + jsvalue" where
  "get_path JUndefined = Inl TypeError"
| "get_path JNull = Inl TypeError"
| "get_path (JObject kvs) =
     Inr (case map_of kvs ''path'' of None \<Rightarrow> JUndefined | Some v \<Rightarrow> v)"
| "get_path v = Inr JUndefined"

type_synonym RouteGuard = "string option \<Rightarrow> string \<Rightarrow> jsvalue"

record NavigationGuardResult =
  shouldNavigate :: bool
  shouldRedirect :: bool
  redirectPath :: "string option"

text \<open>The outward effects of the router, in the order in which they happen.\<close>

datatype effect =
    GuardCall nat "string option" string
  | ConsoleWarn string
  | PushState string
  | ReplaceState string
  | AddEventListener nat
  | Dispatch "route option" route

text \<open>
  The router's fields, followed by the host: the hash of the location, the listeners of
  the \<^verbatim>\<open>popstate\<close> event (the arrow function \<^verbatim>\<open>#onPopState\<close> is identified by a number),
  the effects so far, and the number of nested calls of \<^verbatim>\<open>navigateTo\<close> that the call
  stack has room for.
\<close>

record HashRouter =
  matchers :: "RouteMatcher list"
  matchedRoute :: "route option"
  params :: "string \<rightharpoonup> string"
  query :: "string \<rightharpoonup> string"
  guards :: "RouteGuard list"
  isInitialized :: bool
  onPopState :: nat
  location_hash :: string
  popstate_listeners :: "nat list"
  effects :: "effect list"
  stack_limit :: nat

text \<open>How an async method settles: its promise is fulfilled, or rejected with an error.\<close>

datatype completion = Fulfilled | Rejected error

subsection \<open>The host\<close>

definition emit :: "effect \<Rightarrow> HashRouter \<Rightarrow> HashRouter" where
  "emit e r = r\<lparr>effects := effects r @ [e]\<rparr>"

text \<open>
  \<^verbatim>\<open>location.hash\<close> is the fragment with its \<^verbatim>\<open>#\<close>, and the empty string when the
  fragment is empty. The fragment is kept as it was written (the host's percent-encoding
  is left out).
\<close>

definition hash_of_url :: "string \<Rightarrow> string" where
  "hash_of_url url = (if url = ''#'' then [] else url)"

definition pushState :: "string \<Rightarrow> HashRouter \<Rightarrow> HashRouter" where
  "pushState p r =
     emit (PushState (''#'' @ p)) (r\<lparr>location_hash := hash_of_url (''#'' @ p)\<rparr>)"

definition replaceState :: "string \<Rightarrow> HashRouter \<Rightarrow> HashRouter" where
  "replaceState url r = emit (ReplaceState url) (r\<lparr>location_hash := hash_of_url url\<rparr>)"

text \<open>
  \<^verbatim>\<open>addEventListener\<close> does not add a listener that is already in the list.
\<close>

definition addEventListener :: "nat \<Rightarrow> HashRouter \<Rightarrow> HashRouter" where
  "addEventListener l r =
     emit (AddEventListener l)
       (if l \<in> set (popstate_listeners r) then r
        else r\<lparr>popstate_listeners := popstate_listeners r @ [l]\<rparr>)"

definition currentRouteHash :: "HashRouter \<Rightarrow> string" where
  "currentRouteHash r = (if location_hash r = [] then ''/'' else drop 1 (location_hash r))"

subsection \<open>Construction\<close>

text \<open>
  The constructor, given the matchers that \<^verbatim>\<open>makeRouteMatcher\<close> makes of the routes,
  the number that stands for \<^verbatim>\<open>#onPopState\<close>, the hash of the page's location and the
  room of the host's call stack; and \<^verbatim>\<open>addGuard\<close>.
\<close>

definition new_HashRouter :: "RouteMatcher list \<Rightarrow> nat \<Rightarrow> string \<Rightarrow> nat \<Rightarrow> HashRouter" where
  "new_HashRouter ms listener h room =
     \<lparr>matchers = ms, matchedRoute = None, params = Map.empty, query = Map.empty,
      guards = [], isInitialized = False, onPopState = listener,
      location_hash = h, popstate_listeners = [], effects = [], stack_limit = room\<rparr>"

definition addGuard :: "RouteGuard \<Rightarrow> HashRouter \<Rightarrow> HashRouter" where
  "addGuard guard r = r\<lparr>guards := guards r @ [guard]\<rparr>"

subsection \<open>Guards\<close>

text \<open>
  \<^verbatim>\<open>#canChangeRoute\<close>: the loop over the guards, from the guard with index \<open>i\<close> on.
\<close>

fun canChangeRoute_loop ::
  "nat \<Rightarrow> RouteGuard list \<Rightarrow> string option \<Rightarrow> string \<Rightarrow> HashRouter
     \<Rightarrow> (error + NavigationGuardResult) \<times> HashRouter" where
  "canChangeRoute_loop i [] from_path to_path r =
     (Inr \<lparr>shouldNavigate = True, shouldRedirect = False, redirectPath = None\<rparr>, r)"
| "canChangeRoute_loop i (guard # rest) from_path to_path r =
     (let result = guard from_path to_path;
          r' = emit (GuardCall i from_path to_path) r
      in if result = JBool False
         then (Inr \<lparr>shouldNavigate = False, shouldRedirect = False, redirectPath = None\<rparr>, r')
         else case get_path result of
                Inl e \<Rightarrow> (Inl e, r')
              | Inr (JString s) \<Rightarrow>
                  (Inr \<lparr>shouldNavigate = False, shouldRedirect = True, redirectPath = Some s\<rparr>, r')
              | Inr _ \<Rightarrow> canChangeRoute_loop (Suc i) rest from_path to_path r')"

definition canChangeRoute ::
  "string option \<Rightarrow> string \<Rightarrow> HashRouter \<Rightarrow> (error + NavigationGuardResult) \<times> HashRouter" where
  "canChangeRoute from_path to_path r = canChangeRoute_loop 0 (guards r) from_path to_path r"

subsection \<open>Navigation\<close>

definition warn_no_match :: "string \<Rightarrow> string" where
  "warn_no_match p = ''[Router] No route matches path \"'' @ p @ ''\"''"

text \<open>
  \<^verbatim>\<open>navigateTo\<close> calls itself on a redirect, and nothing in it detects a cycle or bounds
  the number of redirects: a call that never settles is the value \<open>None\<close>.

  \<open>navigateTo_at depth\<close> is the call with \<open>depth\<close> calls of \<^verbatim>\<open>navigateTo\<close> below it on
  the stack. The call for the target of a redirect route is made before any await, one
  call deeper; when the stack has no room for it, a RangeError is thrown and the promise
  is rejected, the router as it was. The call for the path a guard redirects to is made
  after the await of \<^verbatim>\<open>#canChangeRoute\<close>, on a stack of its own. \<open>navigateTo\<close> is the call
  from outside.
\<close>

partial_function (option) navigateTo_at ::
  "nat \<Rightarrow> string \<Rightarrow> HashRouter \<Rightarrow> (completion \<times> HashRouter) option" where
  "navigateTo_at depth p r =
     (case find (\<lambda>m. checkMatch m p) (matchers r) of
        None \<Rightarrow>
          Some (Fulfilled,
            (emit (ConsoleWarn (warn_no_match p)) r)
              \<lparr>matchedRoute := None, params := Map.empty, query := Map.empty\<rparr>)
      | Some matcher \<Rightarrow>
          if isRedirect matcher then
            (if depth < stack_limit r
             then navigateTo_at (Suc depth) (the (redirect (route matcher))) r
             else Some (Rejected RangeError, r))
          else
            (case canChangeRoute (map_option path (matchedRoute r)) (path (route matcher)) r of
               (Inl e, r') \<Rightarrow> Some (Rejected e, r')
             | (Inr res, r') \<Rightarrow>
                 if shouldRedirect res then navigateTo_at 0 (the (redirectPath res)) r'
                 else if shouldNavigate res then
                   Some (Fulfilled,
                     emit (Dispatch (matchedRoute r) (route matcher))
                       (pushState p
                         (r'\<lparr>matchedRoute := Some (route matcher),
                             params := extractParams matcher p,
                             query := extractQuery matcher p\<rparr>)))
                 else Some (Fulfilled, r')))"

definition navigateTo :: "string \<Rightarrow> HashRouter \<Rightarrow> (completion \<times> HashRouter) option" where
  "navigateTo p r = navigateTo_at 0 p r"

definition matchCurrentRoute :: "HashRouter \<Rightarrow> (completion \<times> HashRouter) option" where
  "matchCurrentRoute r = navigateTo (currentRouteHash r) r"

definition init :: "HashRouter \<Rightarrow> (completion \<times> HashRouter) option" where
  "init r =
     (if isInitialized r then Some (Fulfilled, r)
      else
        let r1 = (if location_hash r = [] then replaceState ''#/'' r else r);
            r2 = addEventListener (onPopState r1) r1
        in case matchCurrentRoute r2 of
             None \<Rightarrow> None
           | Some (Rejected e, r3) \<Rightarrow> Some (Rejected e, r3)
           | Some (Fulfilled, r3) \<Rightarrow> Some (Fulfilled, r3\<lparr>isInitialized := True\<rparr>))"

section \<open>The router without guards (unnamed/part_000)\<close>

text \<open>
  The second router source is synchronous and has neither guards nor redirects:
  \<^verbatim>\<open>#matchRoute\<close> updates the state and dispatches the event, and \<^verbatim>\<open>navigateTo\<close> writes
  the history afterwards. Its class has the same fields apart from \<^verbatim>\<open>#guards\<close>, which
  these functions never read.
\<close>

definition matchRoute_sync :: "string \<Rightarrow> HashRouter \<Rightarrow> HashRouter" where
  "matchRoute_sync p r =
     (case find (\<lambda>m. checkMatch m p) (matchers r) of
        Some matcher \<Rightarrow>
          emit (Dispatch (matchedRoute r) (route matcher))
            (r\<lparr>matchedRoute := Some (route matcher),
               params := extractParams matcher p,
               query := extractQuery matcher p\<rparr>)
      | None \<Rightarrow> r\<lparr>matchedRoute := None, params := Map.empty, query := Map.empty\<rparr>)"

definition navigateTo_sync :: "string \<Rightarrow> HashRouter \<Rightarrow> HashRouter" where
  "navigateTo_sync p r =
     (let r1 = matchRoute_sync p r
      in if matchedRoute r1 \<noteq> None then pushState p r1
         else emit (ConsoleWarn (warn_no_match p)) r1)"

definition matchCurrentRoute_sync :: "HashRouter \<Rightarrow> HashRouter" where
  "matchCurrentRoute_sync r = matchRoute_sync (currentRouteHash r) r"

definition init_sync :: "HashRouter \<Rightarrow> HashRouter" where
  "init_sync r =
     (if isInitialized r then r
      else
        let r1 = (if location_hash r = [] then replaceState ''#/'' r else r);
            r2 = addEventListener (onPopState r1) r1
        in (matchCurrentRoute_sync r2)\<lparr>isInitialized := True\<rparr>)"

section \<open>Template compiler (packages/compiler/src/compile.js)\<close>

text \<open>
  The compiler keeps three private fields: the lines emitted so far, a stack of the
  closing lines still due, and the set of imports (\<^verbatim>\<open>#imports\<close>, here \<open>imports_set\<close>). The parser and the helpers it imports
  are not part of the sources, and the compiler is modelled for any of them.

  A string is a list of characters of one byte each: the model covers the templates and
  helper results in Latin-1, with the seven characters of JavaScript's \<^verbatim>\<open>\s\<close> there.
\<close>

subsection \<open>Nodes and helpers\<close>

text \<open>
  A node of the parsed template: an element (raw tag name, attributes, child nodes), a
  text node (raw text), or a node of any other type.
\<close>

datatype node =
    Element string "(string \<times> string) list" "node list"
  | TextNode string
  | OtherNode

record split_attributes =
  attrs :: "(string \<times> string) list"
  bindings :: "(string \<times> string) list"
  events :: "(string \<times> string) list"
  directives :: "string \<rightharpoonup> string"

record for_directive =
  line :: string
  closing :: string

text \<open>
  The imports of compile.js, as parameters: \<^verbatim>\<open>parse\<close> of node-html-parser (the child
  nodes of the root it returns), and the helpers of the package.
\<close>

record helpers =
  parse :: "string \<Rightarrow> node list"
  normalizeTagName :: "string \<Rightarrow> string"
  splitAttributes :: "(string \<times> string) list \<Rightarrow> split_attributes"
  extractProps ::
    "(string \<times> string) list \<Rightarrow> (string \<times> string) list \<Rightarrow> (string \<times> string) list \<Rightarrow> string"
  formatForDirective :: "string \<Rightarrow> for_directive"
  addThisContext :: "string \<Rightarrow> string"
  interpolateVariables :: "string \<Rightarrow> string"

record TemplateCompiler =
  lines :: "string list"
  stack :: "string list"
  imports_set :: "string set"

subsection \<open>Strings\<close>

definition is_space :: "char \<Rightarrow> bool" where
  "is_space c \<longleftrightarrow>
     c \<in> set [CHR 0x09, CHR 0x0A, CHR 0x0B, CHR 0x0C, CHR 0x0D, CHR '' '', CHR 0xA0]"

text \<open>\<^verbatim>\<open>/,\s*$/.test(s)\<close>\<close>

definition ends_with_comma :: "string \<Rightarrow> bool" where
  "ends_with_comma s =
     (case dropWhile is_space (rev s) of [] \<Rightarrow> False | c # cs \<Rightarrow> c = CHR '','')"

text \<open>\<^verbatim>\<open>/^\s*[\)\]:]/.test(s)\<close>\<close>

definition starts_with_closing :: "string \<Rightarrow> bool" where
  "starts_with_closing s =
     (case dropWhile is_space s of
        [] \<Rightarrow> False
      | c # cs \<Rightarrow> c = CHR '')'' \<or> c = CHR '']'' \<or> c = CHR '':'')"

text \<open>\<^verbatim>\<open>s.trim()\<close>\<close>

definition trim :: "string \<Rightarrow> string" where
  "trim s = rev (dropWhile is_space (rev (dropWhile is_space s)))"

text \<open>\<^verbatim>\<open>s.slice(0, -n)\<close> for a positive \<open>n\<close>, and \<^verbatim>\<open>s.slice(1)\<close> is \<open>drop 1 s\<close>.\<close>

definition slice_end :: "nat \<Rightarrow> string \<Rightarrow> string" where
  "slice_end n s = take (length s - n) s"

text \<open>\<^verbatim>\<open>lines.join(' ')\<close>\<close>

fun join_space :: "string list \<Rightarrow> string" where
  "join_space [] = []"
| "join_space [l] = l"
| "join_space (l # ls) = l @ '' '' @ join_space ls"

text \<open>
  \<^verbatim>\<open>s.replace(/>\s+</g, '><')\<close>: a match is a \<^verbatim>\<open>>\<close>, one or more white-space characters and a
  \<^verbatim>\<open><\<close>; the search goes on after the match.
\<close>

function collapse_between_tags :: "string \<Rightarrow> string" where
  "collapse_between_tags [] = []"
| "collapse_between_tags (c # cs) =
     (let rest = dropWhile is_space cs
      in if c = CHR ''>'' \<and> rest \<noteq> cs \<and> rest \<noteq> [] \<and> hd rest = CHR ''<''
         then CHR ''>'' # CHR ''<'' # collapse_between_tags (tl rest)
         else c # collapse_between_tags cs)"
  by pat_completeness auto
termination
proof (relation "measure length", goal_cases)
  case 1
  show ?case by simp
next
  case 2
  have "length (tl (dropWhile is_space cs)) \<le> length cs" for cs :: string
    using length_dropWhile_le[of is_space cs] by simp
  with 2 show ?case by (simp add: less_Suc_eq_le)
next
  case 3
  show ?case by simp
qed

definition normalize_template :: "string \<Rightarrow> string" where
  "normalize_template str =
     trim (collapse_between_tags (map (\<lambda>c. if c = CHR 0x0A then CHR '' '' else c) str))"

subsection \<open>The compiler\<close>

definition reset :: TemplateCompiler where
  "reset = \<lparr>lines = [''function render() {'', ''return (''], stack = ['')'', ''}''], imports_set = {}\<rparr>"

text \<open>
  \<^verbatim>\<open>#addLineFromStack\<close>. With an empty stack, \<^verbatim>\<open>shift()\<close> returns \<^verbatim>\<open>undefined\<close>, which
  matches neither pattern as a closing token and which \<^verbatim>\<open>join\<close> renders as the empty
  string; no caller reaches this case.
\<close>

definition addLineFromStack :: "TemplateCompiler \<Rightarrow> TemplateCompiler" where
  "addLineFromStack c =
     (case stack c of
        [] \<Rightarrow> c\<lparr>lines := lines c @ [[]]\<rparr>
      | l # rest \<Rightarrow>
          (if lines c \<noteq> [] \<and> ends_with_comma (last (lines c)) \<and> starts_with_closing l
           then c\<lparr>lines := butlast (lines c) @ [slice_end 1 (last (lines c)), l], stack := rest\<rparr>
           else c\<lparr>lines := lines c @ [l], stack := rest\<rparr>))"

text \<open>\<^verbatim>\<open>#addText\<close>\<close>

definition addText :: "helpers \<Rightarrow> string \<Rightarrow> TemplateCompiler \<Rightarrow> TemplateCompiler" where
  "addText h rawText c =
     (let text = trim rawText
      in if text \<noteq> []
         then c\<lparr>lines := lines c @ [''hString('' @ interpolateVariables h text @ ''),''],
                imports_set := insert ''hString'' (imports_set c)\<rparr>
         else c)"

text \<open>
  The block of \<^verbatim>\<open>#addElement\<close> for a \<^verbatim>\<open>for\<close> directive. It cuts the last two
  characters of the last line and the first character of the top of the stack; reading
  either from an empty array gives \<^verbatim>\<open>undefined\<close>, whose \<^verbatim>\<open>slice\<close> throws.
\<close>

definition openFor :: "for_directive \<Rightarrow> TemplateCompiler \<Rightarrow> error + TemplateCompiler" where
  "openFor fd c =
     (if lines c = [] \<or> stack c = [] then Inl TypeError
      else Inr (c\<lparr>lines := butlast (lines c) @ [slice_end 2 (last (lines c)), line fd],
                  stack := closing fd # drop 1 (hd (stack c)) # tl (stack c)\<rparr>))"

text \<open>The block of \<^verbatim>\<open>#addElement\<close> for a \<^verbatim>\<open>show\<close> directive.\<close>

definition openShow :: "string \<Rightarrow> TemplateCompiler \<Rightarrow> TemplateCompiler" where
  "openShow condition c =
     c\<lparr>lines := lines c @ [condition @ '' ?''], stack := '': null'' # stack c\<rparr>"

text \<open>The element itself: its line, the import of \<^verbatim>\<open>h\<close> and its closing line.\<close>

definition openElement :: "string \<Rightarrow> string \<Rightarrow> TemplateCompiler \<Rightarrow> TemplateCompiler" where
  "openElement tag props c =
     c\<lparr>lines := lines c @ [''h('' @ tag @ '', '' @ props @ '', [''],
       imports_set := insert ''h'' (imports_set c),
       stack := '']),'' # stack c\<rparr>"

text \<open>
  \<^verbatim>\<open>#addNode\<close> with \<^verbatim>\<open>#addElement\<close>, and the loop over child nodes. The number is
  \<^verbatim>\<open>closingsCount\<close>.
\<close>

fun addNode :: "helpers \<Rightarrow> node \<Rightarrow> TemplateCompiler \<Rightarrow> error + TemplateCompiler"
  and addNodes :: "helpers \<Rightarrow> node list \<Rightarrow> TemplateCompiler \<Rightarrow> error + TemplateCompiler" where
  "addNode h (Element rawTagName attributes childNodes) c =
     (let tag = normalizeTagName h rawTagName;
          sp = splitAttributes h attributes;
          props = extractProps h (attrs sp) (bindings sp) (events sp)
      in case (case directives sp ''for'' of
                 None \<Rightarrow> Inr (c, 1 :: nat)
               | Some f \<Rightarrow>
                   (case openFor (formatForDirective h f) c of
                      Inl e \<Rightarrow> Inl e
                    | Inr c1 \<Rightarrow> Inr (c1, 2))) of
           Inl e \<Rightarrow> Inl e
         | Inr (c1, n1) \<Rightarrow>
             (let (c2, closingsCount) =
                    (case directives sp ''show'' of
                       None \<Rightarrow> (c1, n1)
                     | Some s \<Rightarrow> (openShow (addThisContext h s) c1, Suc n1))
              in case addNodes h childNodes (openElement tag props c2) of
                   Inl e \<Rightarrow> Inl e
                 | Inr c3 \<Rightarrow> Inr ((addLineFromStack ^^ closingsCount) c3)))"
| "addNode h (TextNode rawText) c = Inr (addText h rawText c)"
| "addNode h OtherNode c = Inr c"
| "addNodes h [] c = Inr c"
| "addNodes h (n # ns) c =
     (case addNode h n c of Inl e \<Rightarrow> Inl e | Inr c1 \<Rightarrow> addNodes h ns c1)"

text \<open>\<^verbatim>\<open>while (this.#stack.length) this.#addLineFromStack()\<close>\<close>

function drain :: "TemplateCompiler \<Rightarrow> TemplateCompiler" where
  "drain c = (if stack c = [] then c else drain (addLineFromStack c))"
  by pat_completeness auto
termination
  by (relation "measure (\<lambda>c. length (stack c))")
    (auto simp: addLineFromStack_def split: list.splits)

declare drain.simps [simp del]

text \<open>\<^verbatim>\<open>compile\<close>: the result is the pair of the imports and the code.\<close>

definition compile :: "helpers \<Rightarrow> string \<Rightarrow> error + (string set \<times> string)" where
  "compile h template =
     (let childNodes = parse h (normalize_template template);
          c0 = reset;
          c1 = (if length childNodes > 1
                then c0\<lparr>lines := lines c0 @ [''h(Fragment, {}, [''],
                        imports_set := insert ''hFragment'' (imports_set c0),
                        stack := ''])'' # stack c0\<rparr>
                else c0)
      in case addNodes h childNodes c1 of
           Inl e \<Rightarrow> Inl e
         | Inr c2 \<Rightarrow> (let c3 = drain c2 in Inr (imports_set c3, join_space (lines c3))))"

definition compileTemplate :: "helpers \<Rightarrow> string \<Rightarrow> error + (string set \<times> string)" where
  "compileTemplate h template = compile h template"

section \<open>Notions used by the properties of the router\<close>

text \<open>The first matcher, in registration order, that matches a path.\<close>

definition first_match :: "HashRouter \<Rightarrow> string \<Rightarrow> RouteMatcher option" where
  "first_match r q = find (\<lambda>m. checkMatch m q) (matchers r)"

text \<open>
  What \<^verbatim>\<open>#canChangeRoute\<close> makes of the value of one guard: \<^verbatim>\<open>result === false\<close>
  blocks, reading \<^verbatim>\<open>result.path\<close> may throw, a string there redirects, and anything
  else lets the loop go on.
\<close>

datatype verdict = Allow | Block | RedirectTo string | Throw error

definition verdict :: "jsvalue \<Rightarrow> verdict" where
  "verdict v =
     (if v = JBool False then Block
      else case get_path v of
             Inl e \<Rightarrow> Throw e
           | Inr (JString s) \<Rightarrow> RedirectTo s
           | Inr _ \<Rightarrow> Allow)"

text \<open>The specification's allow: the guard's value is \<^verbatim>\<open>true\<close> or \<^verbatim>\<open>undefined\<close>.\<close>

definition spec_allow :: "jsvalue \<Rightarrow> bool" where
  "spec_allow v = (v = JBool True \<or> v = JUndefined)"

text \<open>The calls of the guards \<open>i\<close>, ..., \<open>i + n - 1\<close>, in this order.\<close>

primrec guard_calls :: "nat \<Rightarrow> nat \<Rightarrow> string option \<Rightarrow> string \<Rightarrow> effect list" where
  "guard_calls i 0 from_path to_path = []"
| "guard_calls i (Suc n) from_path to_path =
     GuardCall i from_path to_path # guard_calls (Suc i) n from_path to_path"

fun is_GuardCall :: "effect \<Rightarrow> bool" where
  "is_GuardCall (GuardCall i a b) = True"
| "is_GuardCall e = False"

fun is_Dispatch :: "effect \<Rightarrow> bool" where
  "is_Dispatch (Dispatch a b) = True"
| "is_Dispatch e = False"

fun is_PushState :: "effect \<Rightarrow> bool" where
  "is_PushState (PushState u) = True"
| "is_PushState e = False"

text \<open>A router after some more effects, with every field as before.\<close>

definition logged :: "effect list \<Rightarrow> HashRouter \<Rightarrow> HashRouter" where
  "logged es r = r\<lparr>effects := effects r @ es\<rparr>"

text \<open>The effects of a call: those of the state after it that the state before it lacks.\<close>

definition new_effects :: "HashRouter \<Rightarrow> HashRouter \<Rightarrow> effect list" where
  "new_effects r r2 = drop (length (effects r)) (effects r2)"

text \<open>The state after a navigation that matched no route.\<close>

definition cleared :: "string \<Rightarrow> HashRouter \<Rightarrow> HashRouter" where
  "cleared q r =
     (emit (ConsoleWarn (warn_no_match q)) r)
       \<lparr>matchedRoute := None, params := Map.empty, query := Map.empty\<rparr>"

text \<open>The state after the navigation to \<open>q\<close>, matched by \<open>m\<close>, has been committed.\<close>

definition committed :: "route option \<Rightarrow> string \<Rightarrow> RouteMatcher \<Rightarrow> HashRouter \<Rightarrow> HashRouter" where
  "committed previous q m r =
     emit (Dispatch previous (route m))
       (pushState q
         (r\<lparr>matchedRoute := Some (route m),
            params := extractParams m q,
            query := extractQuery m q\<rparr>))"

text \<open>Every guard lets the navigation from the current route to the route of \<open>m\<close> pass.\<close>

definition guards_allow :: "HashRouter \<Rightarrow> RouteMatcher \<Rightarrow> bool" where
  "guards_allow r m =
     list_all (\<lambda>g. verdict (g (map_option path (matchedRoute r)) (path (route m))) = Allow)
       (guards r)"

text \<open>
  The three ways in which a call of \<^verbatim>\<open>navigateTo\<close> on the router \<open>r\<close> can end: nothing
  but guards were called (a guard blocked, or the call threw); the state was cleared
  because a path matched no route; the navigation to a path was committed.
\<close>

definition outcome :: "HashRouter \<Rightarrow> completion \<Rightarrow> HashRouter \<Rightarrow> bool" where
  "outcome r c r2 \<longleftrightarrow>
     (\<exists>gcs. (\<forall>e\<in>set gcs. is_GuardCall e) \<and>
        (r2 = logged gcs r
         \<or> (\<exists>q. c = Fulfilled \<and> first_match r q = None \<and> r2 = cleared q (logged gcs r))
         \<or> (\<exists>q m. c = Fulfilled \<and> first_match r q = Some m \<and> \<not> isRedirect m
               \<and> guards_allow r m \<and> r2 = committed (matchedRoute r) q m (logged gcs r))))"

text \<open>
  In a list of effects, every notification of the subscribers comes after a write to
  the history that no other notification has followed yet.
\<close>

fun notified_after_write :: "bool \<Rightarrow> effect list \<Rightarrow> bool" where
  "notified_after_write written [] = True"
| "notified_after_write written (e # es) =
     (if is_Dispatch e then written \<and> notified_after_write False es
      else notified_after_write (written \<or> is_PushState e) es)"

text \<open>
  The path a navigation to \<open>q\<close> goes on with: the target of a redirect route, or the
  path the guards redirect to.
\<close>

definition redirect_target :: "HashRouter \<Rightarrow> string \<Rightarrow> string option" where
  "redirect_target r q =
     (case first_match r q of
        None \<Rightarrow> None
      | Some m \<Rightarrow>
          if isRedirect m then redirect (route m)
          else (case fst (canChangeRoute (map_option path (matchedRoute r)) (path (route m)) r) of
                  Inl e \<Rightarrow> None
                | Inr res \<Rightarrow> if shouldRedirect res then redirectPath res else None))"


subsection \<open>Example routers\<close>

text \<open>The example routers run on a host whose stack has room for 10000 nested calls.\<close>

definition exact_matcher :: "route \<Rightarrow> RouteMatcher" where
  "exact_matcher rt =
     \<lparr>route = rt, checkMatch = (\<lambda>p. p = path rt),
      extractParams = (\<lambda>p. Map.empty), extractQuery = (\<lambda>p. Map.empty)\<rparr>"

definition route_home :: route where
  "route_home = \<lparr>path = ''/'', component = Some 0, redirect = None\<rparr>"

definition route_one :: route where
  "route_one = \<lparr>path = ''/one'', component = Some 1, redirect = None\<rparr>"

definition route_two :: route where
  "route_two = \<lparr>path = ''/two'', component = Some 2, redirect = None\<rparr>"

definition route_ping :: route where
  "route_ping = \<lparr>path = ''/ping'', component = None, redirect = Some ''/pong''\<rparr>"

definition route_pong :: route where
  "route_pong = \<lparr>path = ''/pong'', component = None, redirect = Some ''/ping''\<rparr>"


definition example_router :: HashRouter where
  "example_router =
     new_HashRouter [exact_matcher route_home, exact_matcher route_one, exact_matcher route_two]
       0 [] 10000"

definition loop_router :: HashRouter where
  "loop_router =
     new_HashRouter [exact_matcher route_ping, exact_matcher route_pong] 0 [] 10000"


definition guard_true :: RouteGuard where
  "guard_true from_path to_path = JBool True"

definition guard_false :: RouteGuard where
  "guard_false from_path to_path = JBool False"

definition guard_undefined :: RouteGuard where
  "guard_undefined from_path to_path = JUndefined"



section \<open>Notions used by the properties of the compiler\<close>

text \<open>
  The code contains a comma followed, after white space or none, by a closing token:
  \<^verbatim>\<open>/,\s*[\)\]:]/.test(code)\<close>.
\<close>

fun separator_before_closing :: "string \<Rightarrow> bool" where
  "separator_before_closing [] = False"
| "separator_before_closing (c # cs) =
     ((c = CHR '','' \<and> starts_with_closing cs) \<or> separator_before_closing cs)"

text \<open>
  What a node, or a list of nodes, can do to the compiler: the lines before the last one
  stay, the last one stays or loses its last two characters (when lines follow), lines
  are added; the top of the stack stays or loses characters at its front, the rest of the
  stack stays; and the imports gain at most \<^verbatim>\<open>h\<close> and \<^verbatim>\<open>hString\<close>.
\<close>

definition grows :: "TemplateCompiler \<Rightarrow> TemplateCompiler \<Rightarrow> bool" where
  "grows c c' \<longleftrightarrow>
     (\<exists>l mid. lines c' = butlast (lines c) @ l # mid \<and>
        (l = last (lines c) \<or> (l = slice_end 2 (last (lines c)) \<and> mid \<noteq> []))) \<and>
     (\<exists>k. stack c' = drop k (hd (stack c)) # tl (stack c)) \<and>
     imports_set c \<subseteq> imports_set c' \<and>
     imports_set c' \<subseteq> imports_set c \<union> {''h'', ''hString''}"

text \<open>The node is an element that carries a \<^verbatim>\<open>for\<close> directive.\<close>

fun carries_for :: "helpers \<Rightarrow> node \<Rightarrow> bool" where
  "carries_for h (Element t as ns) = (directives (splitAttributes h as) ''for'' \<noteq> None)"
| "carries_for h (TextNode t) = False"
| "carries_for h OtherNode = False"

text \<open>
  What \<^verbatim>\<open>#addLineFromStack\<close> makes of the lines before it appends a closing token: the
  last line loses its last character when it ends in a comma (followed by white space or
  none).
\<close>

definition cut_comma :: "string list \<Rightarrow> string list" where
  "cut_comma ls =
     (if ls \<noteq> [] \<and> ends_with_comma (last ls) then butlast ls @ [slice_end 1 (last ls)]
      else ls)"

text \<open>
  The compiler at the point where \<^verbatim>\<open>compile\<close> begins to add the top-level nodes: reset,
  and with the fragment opened when there is more than one node.
\<close>

definition initial_compiler :: "node list \<Rightarrow> TemplateCompiler" where
  "initial_compiler ns =
     (if length ns > 1
      then reset\<lparr>lines := lines reset @ [''h(Fragment, {}, [''],
                 imports_set := insert ''hFragment'' (imports_set reset),
                 stack := ''])'' # stack reset\<rparr>
      else reset)"

text \<open>
  The code is a render function that returns one call of the fragment primitive, with a
  list of children: it begins with the opening of the function and of the call, and it
  ends with the closing of the list, of the call and of the function.
\<close>

definition wrapped_in_fragment :: "string \<Rightarrow> bool" where
  "wrapped_in_fragment code \<longleftrightarrow>
     (let opening = ''function render() { return ( h(Fragment, {}, ['';
          ending = '' ]) ) }''
      in length opening + length ending \<le> length code \<and>
         take (length opening) code = opening \<and>
         drop (length code - length ending) code = ending)"

text \<open>
  The last three lines are the closing of an element's list of children and call, the
  closing of a \<^verbatim>\<open>show\<close> directive and the closing of a \<^verbatim>\<open>for\<close> directive.
\<close>

definition closes_element_show_for :: "string \<Rightarrow> string list \<Rightarrow> bool" where
  "closes_element_show_for for_closing ls \<longleftrightarrow>
     3 \<le> length ls \<and> drop (length ls - 3) ls = [''])'', '': null'', for_closing]"

text \<open>No element of the node, at any depth, carries a \<^verbatim>\<open>for\<close> directive.\<close>

fun for_free :: "helpers \<Rightarrow> node \<Rightarrow> bool" where
  "for_free h (Element t as ns) =
     (directives (splitAttributes h as) ''for'' = None \<and> list_all (for_free h) ns)"
| "for_free h (TextNode t) = True"
| "for_free h OtherNode = True"

text \<open>
  No line that ends in a comma (followed by white space or none) comes right before a
  line that begins (after white space or none) with a closing token.
\<close>

fun tidy :: "string list \<Rightarrow> bool" where
  "tidy [] = True"
| "tidy [a] = True"
| "tidy (a # b # ls) = (\<not> (ends_with_comma a \<and> starts_with_closing b) \<and> tidy (b # ls))"

text \<open>A blank line: white space only.\<close>

definition blank :: "string \<Rightarrow> bool" where
  "blank l = list_all is_space l"

text \<open>
  A line that is not blank and that, when it ends in a comma, is neither blank nor ends
  in a comma once \<^verbatim>\<open>#addLineFromStack\<close> has cut its last character.
\<close>

definition firm :: "string \<Rightarrow> bool" where
  "firm a \<longleftrightarrow>
     \<not> blank a \<and>
     (ends_with_comma a \<longrightarrow> \<not> ends_with_comma (slice_end 1 a) \<and> \<not> blank (slice_end 1 a))"

definition kept_tidy :: "TemplateCompiler \<Rightarrow> bool" where
  "kept_tidy c \<longleftrightarrow>
     tidy (lines c) \<and> list_all (\<lambda>l. \<not> blank l) (lines c) \<and> lines c \<noteq> [] \<and>
     firm (last (lines c)) \<and> list_all firm (stack c)"

subsection \<open>Example helpers\<close>

definition example_splitAttributes :: "(string \<times> string) list \<Rightarrow> split_attributes" where
  "example_splitAttributes as =
     \<lparr>attrs = filter (\<lambda>(k, v). k \<noteq> ''for'' \<and> k \<noteq> ''show'') as,
      bindings = [], events = [],
      directives = map_of (filter (\<lambda>(k, v). k = ''for'' \<or> k = ''show'') as)\<rparr>"

text \<open>
  A parser that knows four templates, and gives each the nodes that the template
  describes.
\<close>

definition template_item :: string where
  "template_item = ''<li for=\"a in as\" show=\"ok\">x</li>''"

definition template_two :: string where
  "template_two = ''<p>x</p><p>y</p>''"

definition template_lists :: string where
  "template_lists = ''<li for=\"a in as\"></li><li for=\"b in bs\"></li>x''"

definition template_nested :: string where
  "template_nested =
     ''<ul for=\"a in as\" show=\"ok\"><li for=\"b in bs\"></li><li for=\"c in cs\"></li></ul>''"

definition example_parse :: "string \<Rightarrow> node list" where
  "example_parse t =
     (if t = template_item
      then [Element ''li'' [(''for'', ''a in as''), (''show'', ''ok'')] [TextNode ''x'']]
      else if t = template_two
      then [Element ''p'' [] [TextNode ''x''], Element ''p'' [] [TextNode ''y'']]
      else if t = template_lists
      then [Element ''li'' [(''for'', ''a in as'')] [],
            Element ''li'' [(''for'', ''b in bs'')] [],
            TextNode ''x'']
      else if t = template_nested
      then [Element ''ul'' [(''for'', ''a in as''), (''show'', ''ok'')]
              [Element ''li'' [(''for'', ''b in bs'')] [],
               Element ''li'' [(''for'', ''c in cs'')] []]]
      else [])"

definition example_helpers :: helpers where
  "example_helpers =
     \<lparr>parse = example_parse,
      normalizeTagName = (\<lambda>t. t),
      splitAttributes = example_splitAttributes,
      extractProps = (\<lambda>a b e. ''{}''),
      formatForDirective = (\<lambda>d. \<lparr>line = ''each('' @ d @ '') =>'', closing = '')''\<rparr>),
      addThisContext = (\<lambda>s. ''this.'' @ s),
      interpolateVariables = (\<lambda>s. s)\<rparr>"

section \<open>Properties of the router\<close>

subsection \<open>Effects\<close>

lemma logged_Nil [simp]: "logged [] r = r"
  by (simp add: logged_def)

lemma logged_logged [simp]: "logged es (logged ds r) = logged (ds @ es) r"
  by (simp add: logged_def)

lemma emit_is_logged: "emit e r = logged [e] r"
  by (simp add: logged_def emit_def)

lemma logged_fields [simp]:
  "matchers (logged es r) = matchers r"
  "matchedRoute (logged es r) = matchedRoute r"
  "params (logged es r) = params r"
  "query (logged es r) = query r"
  "guards (logged es r) = guards r"
  "isInitialized (logged es r) = isInitialized r"
  "onPopState (logged es r) = onPopState r"
  "location_hash (logged es r) = location_hash r"
  "popstate_listeners (logged es r) = popstate_listeners r"
  "effects (logged es r) = effects r @ es"
  "stack_limit (logged es r) = stack_limit r"
  by (simp_all add: logged_def)

lemma first_match_logged [simp]: "first_match (logged es r) q = first_match r q"
  by (simp add: first_match_def)

lemma guards_allow_logged [simp]: "guards_allow (logged es r) m = guards_allow r m"
  by (simp add: guards_allow_def)

lemma new_effects_logged [simp]: "new_effects r (logged es r) = es"
  by (simp add: new_effects_def)

lemma new_effects_cleared [simp]:
  "new_effects r (cleared q (logged es r)) = es @ [ConsoleWarn (warn_no_match q)]"
  by (simp add: new_effects_def cleared_def emit_def)

lemma new_effects_committed [simp]:
  "new_effects r (committed previous q m (logged es r)) =
     es @ [PushState (''#'' @ q), Dispatch previous (route m)]"
  by (simp add: new_effects_def committed_def pushState_def emit_def)

lemma guard_calls_are_GuardCall: "\<forall>e\<in>set (guard_calls i n fp tp). is_GuardCall e"
  by (induction n arbitrary: i) auto


subsection \<open>The loop over the guards\<close>

lemma loop_Cons:
  "canChangeRoute_loop i (g # gs) fp tp r =
     (case verdict (g fp tp) of
        Block \<Rightarrow> (Inr \<lparr>shouldNavigate = False, shouldRedirect = False, redirectPath = None\<rparr>,
                   logged [GuardCall i fp tp] r)
      | Throw e \<Rightarrow> (Inl e, logged [GuardCall i fp tp] r)
      | RedirectTo s \<Rightarrow>
          (Inr \<lparr>shouldNavigate = False, shouldRedirect = True, redirectPath = Some s\<rparr>,
           logged [GuardCall i fp tp] r)
      | Allow \<Rightarrow> canChangeRoute_loop (Suc i) gs fp tp (logged [GuardCall i fp tp] r))"
  by (simp add: verdict_def Let_def emit_is_logged split: sum.splits jsvalue.splits)

lemma loop_shape:
  "\<exists>n\<le>length gs. snd (canChangeRoute_loop i gs fp tp r) = logged (guard_calls i n fp tp) r"
proof (induction gs arbitrary: i r)
  case Nil
  show ?case by simp
next
  case (Cons g gs)
  obtain n where n: "n \<le> length gs" and
    eq: "snd (canChangeRoute_loop (Suc i) gs fp tp (logged [GuardCall i fp tp] r))
       = logged (guard_calls (Suc i) n fp tp) (logged [GuardCall i fp tp] r)"
    using Cons.IH by blast
  have eq': "snd (canChangeRoute_loop (Suc i) gs fp tp (logged [GuardCall i fp tp] r))
       = logged (guard_calls i (Suc n) fp tp) r"
    using eq by simp
  have one: "logged [GuardCall i fp tp] r = logged (guard_calls i (Suc 0) fp tp) r"
    by simp
  show ?case
  proof (cases "verdict (g fp tp)")
    case Allow
    then have "snd (canChangeRoute_loop i (g # gs) fp tp r) = logged (guard_calls i (Suc n) fp tp) r"
      unfolding loop_Cons using eq' by simp
    with n show ?thesis by (intro exI[of _ "Suc n"]) simp
  next
    case Block
    then have "snd (canChangeRoute_loop i (g # gs) fp tp r) = logged (guard_calls i (Suc 0) fp tp) r"
      unfolding loop_Cons using one by simp
    then show ?thesis by (intro exI[of _ "Suc 0"]) simp
  next
    case (RedirectTo s)
    then have "snd (canChangeRoute_loop i (g # gs) fp tp r) = logged (guard_calls i (Suc 0) fp tp) r"
      unfolding loop_Cons using one by simp
    then show ?thesis by (intro exI[of _ "Suc 0"]) simp
  next
    case (Throw e)
    then have "snd (canChangeRoute_loop i (g # gs) fp tp r) = logged (guard_calls i (Suc 0) fp tp) r"
      unfolding loop_Cons using one by simp
    then show ?thesis by (intro exI[of _ "Suc 0"]) simp
  qed
qed

lemma loop_navigate:
  "fst (canChangeRoute_loop i gs fp tp r) = Inr res \<Longrightarrow> shouldNavigate res \<Longrightarrow>
     list_all (\<lambda>g. verdict (g fp tp) = Allow) gs \<and> \<not> shouldRedirect res"
proof (induction gs arbitrary: i r)
  case Nil
  then show ?case by auto
next
  case (Cons g gs)
  then show ?case
    unfolding loop_Cons by (cases "verdict (g fp tp)") auto
qed


lemma loop_result_independent:
  "fst (canChangeRoute_loop i gs fp tp r) = fst (canChangeRoute_loop i' gs fp tp r')"
proof (induction gs arbitrary: i i' r r')
  case Nil
  show ?case by simp
next
  case (Cons g gs)
  from Cons[of "Suc i" "logged [GuardCall i fp tp] r" "Suc i'" "logged [GuardCall i' fp tp] r'"]
  show ?case
    unfolding loop_Cons by (cases "verdict (g fp tp)") simp_all
qed

lemma loop_all_allow:
  "list_all (\<lambda>g. verdict (g fp tp) = Allow) gs \<Longrightarrow>
   canChangeRoute_loop i gs fp tp r =
     (Inr \<lparr>shouldNavigate = True, shouldRedirect = False, redirectPath = None\<rparr>,
      logged (guard_calls i (length gs) fp tp) r)"
proof (induction gs arbitrary: i r)
  case Nil
  show ?case by simp
next
  case (Cons g gs)
  then show ?case unfolding loop_Cons by simp
qed


lemma loop_blocked:
  "k < length gs \<Longrightarrow> (gs ! k) fp tp = JBool False \<Longrightarrow> \<forall>j<k. spec_allow ((gs ! j) fp tp) \<Longrightarrow>
   \<exists>n\<le>k. \<exists>x. canChangeRoute_loop i gs fp tp r = (x, logged (guard_calls i (Suc n) fp tp) r)
       \<and> ((x = Inl TypeError \<and> n < k \<and> (gs ! n) fp tp = JUndefined) \<or>
          (x = Inr \<lparr>shouldNavigate = False, shouldRedirect = False, redirectPath = None\<rparr>
             \<and> n = k))"
proof (induction gs arbitrary: i k r)
  case Nil
  then show ?case by simp
next
  case (Cons g gs)
  show ?case
  proof (cases k)
    case 0
    with Cons.prems have "verdict (g fp tp) = Block" by (simp add: verdict_def)
    then have "canChangeRoute_loop i (g # gs) fp tp r =
       (Inr \<lparr>shouldNavigate = False, shouldRedirect = False, redirectPath = None\<rparr>,
        logged (guard_calls i (Suc 0) fp tp) r)"
      unfolding loop_Cons by simp
    with 0 show ?thesis by blast
  next
    case (Suc k')
    with Cons.prems have g0: "spec_allow (g fp tp)" by auto
    show ?thesis
    proof (cases "g fp tp = JUndefined")
      case True
      then have "verdict (g fp tp) = Throw TypeError" by (simp add: verdict_def)
      then have "canChangeRoute_loop i (g # gs) fp tp r =
          (Inl TypeError, logged (guard_calls i (Suc 0) fp tp) r)"
        unfolding loop_Cons by simp
      with True Suc show ?thesis
        by (intro exI[of _ 0]) simp
    next
      case False
      with g0 have gt: "verdict (g fp tp) = Allow" by (simp add: spec_allow_def verdict_def)
      from Cons.prems Suc have "k' < length gs" "(gs ! k') fp tp = JBool False"
        "\<forall>j<k'. spec_allow ((gs ! j) fp tp)" by auto
      from Cons.IH[OF this, of "Suc i" "logged [GuardCall i fp tp] r"]
      obtain n x where n: "n \<le> k'" and
        eq: "canChangeRoute_loop (Suc i) gs fp tp (logged [GuardCall i fp tp] r)
             = (x, logged (guard_calls i (Suc (Suc n)) fp tp) r)"
        and x: "(x = Inl TypeError \<and> n < k' \<and> (gs ! n) fp tp = JUndefined) \<or>
          (x = Inr \<lparr>shouldNavigate = False, shouldRedirect = False, redirectPath = None\<rparr>
             \<and> n = k')"
        by auto
      have "canChangeRoute_loop i (g # gs) fp tp r = (x, logged (guard_calls i (Suc (Suc n)) fp tp) r)"
        unfolding loop_Cons using gt eq by simp
      with n x Suc show ?thesis
        by (intro exI[of _ "Suc n"]) auto
    qed
  qed
qed

subsection \<open>One step of \<^verbatim>\<open>navigateTo\<close>\<close>

lemma nav_at_no_match:
  "first_match r p = None \<Longrightarrow> navigateTo_at d p r = Some (Fulfilled, cleared p r)"
  by (subst navigateTo_at.simps) (simp add: first_match_def cleared_def)

lemma nav_at_redirect_route:
  "first_match r p = Some m \<Longrightarrow> isRedirect m \<Longrightarrow>
     navigateTo_at d p r =
       (if d < stack_limit r then navigateTo_at (Suc d) (the (redirect (route m))) r
        else Some (Rejected RangeError, r))"
  by (subst navigateTo_at.simps) (simp add: first_match_def)

lemma nav_at_guarded:
  "first_match r p = Some m \<Longrightarrow> \<not> isRedirect m \<Longrightarrow>
   canChangeRoute (map_option path (matchedRoute r)) (path (route m)) r = (x, r') \<Longrightarrow>
   navigateTo_at d p r =
     (case x of
        Inl e \<Rightarrow> Some (Rejected e, r')
      | Inr res \<Rightarrow>
          if shouldRedirect res then navigateTo_at 0 (the (redirectPath res)) r'
          else if shouldNavigate res then Some (Fulfilled, committed (matchedRoute r) p m r')
          else Some (Fulfilled, r'))"
  by (subst navigateTo_at.simps) (simp add: first_match_def committed_def split: sum.splits)

lemma nav_no_match:
  "first_match r p = None \<Longrightarrow> navigateTo p r = Some (Fulfilled, cleared p r)"
  unfolding navigateTo_def by (rule nav_at_no_match)

lemma nav_guarded:
  "first_match r p = Some m \<Longrightarrow> \<not> isRedirect m \<Longrightarrow>
   canChangeRoute (map_option path (matchedRoute r)) (path (route m)) r = (x, r') \<Longrightarrow>
   navigateTo p r =
     (case x of
        Inl e \<Rightarrow> Some (Rejected e, r')
      | Inr res \<Rightarrow>
          if shouldRedirect res then navigateTo (the (redirectPath res)) r'
          else if shouldNavigate res then Some (Fulfilled, committed (matchedRoute r) p m r')
          else Some (Fulfilled, r'))"
  unfolding navigateTo_def by (rule nav_at_guarded)

subsection \<open>How a call of \<^verbatim>\<open>navigateTo\<close> ends\<close>

lemma outcomeI_abandoned:
  "\<forall>e\<in>set gcs. is_GuardCall e \<Longrightarrow> outcome r c (logged gcs r)"
  unfolding outcome_def by blast

lemma outcomeI_cleared:
  "\<forall>e\<in>set gcs. is_GuardCall e \<Longrightarrow> first_match r q = None \<Longrightarrow>
     outcome r Fulfilled (cleared q (logged gcs r))"
  unfolding outcome_def by blast

lemma outcomeI_committed:
  "\<forall>e\<in>set gcs. is_GuardCall e \<Longrightarrow> first_match r q = Some m \<Longrightarrow> \<not> isRedirect m \<Longrightarrow>
     guards_allow r m \<Longrightarrow> outcome r Fulfilled (committed (matchedRoute r) q m (logged gcs r))"
  unfolding outcome_def by blast

lemma outcome_logged:
  assumes "outcome (logged ds r) c r2" and "\<forall>e\<in>set ds. is_GuardCall e"
  shows "outcome r c r2"
proof -
  from assms(1) obtain gcs where g: "\<forall>e\<in>set gcs. is_GuardCall e" and
    d: "r2 = logged gcs (logged ds r)
         \<or> (\<exists>q. c = Fulfilled \<and> first_match (logged ds r) q = None
               \<and> r2 = cleared q (logged gcs (logged ds r)))
         \<or> (\<exists>q m. c = Fulfilled \<and> first_match (logged ds r) q = Some m \<and> \<not> isRedirect m
               \<and> guards_allow (logged ds r) m
               \<and> r2 = committed (matchedRoute (logged ds r)) q m (logged gcs (logged ds r)))"
    unfolding outcome_def by blast
  have all: "\<forall>e\<in>set (ds @ gcs). is_GuardCall e" using g assms(2) by auto
  from d have "r2 = logged (ds @ gcs) r
         \<or> (\<exists>q. c = Fulfilled \<and> first_match r q = None \<and> r2 = cleared q (logged (ds @ gcs) r))
         \<or> (\<exists>q m. c = Fulfilled \<and> first_match r q = Some m \<and> \<not> isRedirect m
               \<and> guards_allow r m \<and> r2 = committed (matchedRoute r) q m (logged (ds @ gcs) r))"
    by simp
  with all show ?thesis unfolding outcome_def by blast
qed

lemma canChangeRoute_shape:
  "\<exists>n\<le>length (guards r).
     snd (canChangeRoute fp tp r) = logged (guard_calls 0 n fp tp) r"
  unfolding canChangeRoute_def by (rule loop_shape)

lemma navigateTo_at_outcome:
  assumes "navigateTo_at d p r = Some y"
  shows "outcome r (fst y) (snd y)"
proof (rule navigateTo_at.raw_induct[where P = "\<lambda>d p r y. outcome r (fst y) (snd y)",
      OF _ assms], goal_cases)
  case (1 nav d p r y)
  note IH = 1(1) and body = 1(2)
  show ?case
  proof (cases "first_match r p")
    case None
    with body have "y = (Fulfilled, cleared p (logged [] r))"
      by (simp add: first_match_def cleared_def)
    with None outcomeI_cleared[of "[]" r p] show ?thesis
      by simp
  next
    case (Some m)
    show ?thesis
    proof (cases "isRedirect m")
      case True
      show ?thesis
      proof (cases "d < stack_limit r")
        case room: True
        with True Some body have "nav (Suc d) (the (redirect (route m))) r = Some y"
          by (simp add: first_match_def)
        then show ?thesis by (rule IH)
      next
        case False
        with True Some body have "y = (Rejected RangeError, logged [] r)"
          by (simp add: first_match_def)
        with outcomeI_abandoned[of "[]" r "Rejected RangeError"] show ?thesis by simp
      qed
    next
      case False
      let ?fp = "map_option path (matchedRoute r)" and ?tp = "path (route m)"
      obtain x r' where cc: "canChangeRoute ?fp ?tp r = (x, r')"
        by (cases "canChangeRoute ?fp ?tp r")
      from canChangeRoute_shape[of r ?fp ?tp] cc
      obtain n where r': "r' = logged (guard_calls 0 n ?fp ?tp) r"
        by auto
      have gc: "\<forall>e\<in>set (guard_calls 0 n ?fp ?tp). is_GuardCall e"
        by (rule guard_calls_are_GuardCall)
      show ?thesis
      proof (cases x)
        case (Inl e)
        with Some False cc body have "y = (Rejected e, r')"
          by (simp add: first_match_def)
        with r' gc show ?thesis by (simp add: outcomeI_abandoned)
      next
        case (Inr res)
        show ?thesis
        proof (cases "shouldRedirect res")
          case True
          with Inr Some False cc body have "nav 0 (the (redirectPath res)) r' = Some y"
            by (simp add: first_match_def)
          then have "outcome r' (fst y) (snd y)" by (rule IH)
          with r' gc show ?thesis by (auto intro: outcome_logged)
        next
          case nr: False
          show ?thesis
          proof (cases "shouldNavigate res")
            case True
            with nr Inr Some False cc body
            have y: "y = (Fulfilled, committed (matchedRoute r) p m r')"
              by (simp add: first_match_def committed_def)
            from cc Inr True have "guards_allow r m"
              using loop_navigate[of 0 "guards r" ?fp ?tp r res]
              by (simp add: canChangeRoute_def guards_allow_def)
            with y r' gc Some \<open>\<not> isRedirect m\<close> show ?thesis
              by (simp add: outcomeI_committed)
          next
            case False
            with nr Inr Some \<open>\<not> isRedirect m\<close> cc body have "y = (Fulfilled, r')"
              by (simp add: first_match_def)
            with r' gc show ?thesis by (simp add: outcomeI_abandoned)
          qed
        qed
      qed
    qed
  qed
qed

lemma navigateTo_outcome:
  assumes "navigateTo p r = Some y"
  shows "outcome r (fst y) (snd y)"
  using assms unfolding navigateTo_def by (rule navigateTo_at_outcome)

lemma notified_after_write_guard_calls:
  "\<forall>e\<in>set gcs. is_GuardCall e \<Longrightarrow>
     notified_after_write w (gcs @ es) = notified_after_write w es"
proof (induction gcs)
  case Nil
  show ?case by simp
next
  case (Cons e gcs)
  then show ?case by (cases e) simp_all
qed

lemma dispatches_guard_calls:
  "\<forall>e\<in>set gcs. is_GuardCall e \<Longrightarrow> filter is_Dispatch (gcs @ es) = filter is_Dispatch es"
proof (induction gcs)
  case Nil
  show ?case by simp
next
  case (Cons e gcs)
  then show ?case by (cases e) simp_all
qed

lemma outcome_cases:
  assumes "outcome r c r2"
  obtains (abandoned) gcs where "\<forall>e\<in>set gcs. is_GuardCall e" "r2 = logged gcs r"
  | (cleared) gcs q where "\<forall>e\<in>set gcs. is_GuardCall e" "c = Fulfilled"
      "first_match r q = None" "r2 = cleared q (logged gcs r)"
  | (committed) gcs q m where "\<forall>e\<in>set gcs. is_GuardCall e" "c = Fulfilled"
      "first_match r q = Some m" "\<not> isRedirect m" "guards_allow r m"
      "r2 = committed (matchedRoute r) q m (logged gcs r)"
  using assms unfolding outcome_def by blast

lemma cleared_fields [simp]:
  "matchers (cleared q r) = matchers r"
  "matchedRoute (cleared q r) = None"
  "guards (cleared q r) = guards r"
  "isInitialized (cleared q r) = isInitialized r"
  "onPopState (cleared q r) = onPopState r"
  "location_hash (cleared q r) = location_hash r"
  "popstate_listeners (cleared q r) = popstate_listeners r"
  "stack_limit (cleared q r) = stack_limit r"
  by (simp_all add: cleared_def emit_def)

lemma committed_fields [simp]:
  "matchers (committed prev q m r) = matchers r"
  "matchedRoute (committed prev q m r) = Some (route m)"
  "guards (committed prev q m r) = guards r"
  "isInitialized (committed prev q m r) = isInitialized r"
  "onPopState (committed prev q m r) = onPopState r"
  "location_hash (committed prev q m r) = hash_of_url (''#'' @ q)"
  "popstate_listeners (committed prev q m r) = popstate_listeners r"
  "stack_limit (committed prev q m r) = stack_limit r"
  by (simp_all add: committed_def pushState_def emit_def)

lemma navigateTo_frame:
  assumes "navigateTo p r = Some (c, r2)"
  shows "matchers r2 = matchers r \<and> guards r2 = guards r \<and> isInitialized r2 = isInitialized r
     \<and> onPopState r2 = onPopState r \<and> popstate_listeners r2 = popstate_listeners r"
proof -
  from navigateTo_outcome[OF assms] have "outcome r c r2" by simp
  then show ?thesis by (cases rule: outcome_cases) simp_all
qed

subsection \<open>Evaluating the example routers\<close>

lemma example_first_match:
  "first_match (logged es example_router) ''/'' = Some (exact_matcher route_home)"
  "first_match (logged es example_router) ''/one'' = Some (exact_matcher route_one)"
  "first_match (logged es example_router) ''/two'' = Some (exact_matcher route_two)"
  "first_match (logged es example_router) ''/unknown'' = None"
  by (simp_all add: first_match_def example_router_def new_HashRouter_def exact_matcher_def
      route_home_def route_one_def route_two_def)

lemma addGuard_fields [simp]:
  "matchers (addGuard g r) = matchers r"
  "matchedRoute (addGuard g r) = matchedRoute r"
  "guards (addGuard g r) = guards r @ [g]"
  "effects (addGuard g r) = effects r"
  by (simp_all add: addGuard_def)

lemma first_match_addGuard [simp]: "first_match (addGuard g r) q = first_match r q"
  by (simp add: first_match_def)

lemma example_router_fields [simp]:
  "matchedRoute example_router = None"
  "guards example_router = []"
  "effects example_router = []"
  by (simp_all add: example_router_def new_HashRouter_def)

lemma exact_matcher_fields [simp]:
  "route (exact_matcher rt) = rt"
  "isRedirect (exact_matcher rt) = (redirect rt \<noteq> None)"
  by (simp_all add: exact_matcher_def isRedirect_def)

lemma example_routes [simp]:
  "path route_home = ''/''" "redirect route_home = None"
  "path route_one = ''/one''" "redirect route_one = None"
  "path route_two = ''/two''" "redirect route_two = None"
  "path route_ping = ''/ping''" "redirect route_ping = Some ''/pong''"
  "path route_pong = ''/pong''" "redirect route_pong = Some ''/ping''"
  by (simp_all add: route_home_def route_one_def route_two_def route_ping_def route_pong_def)

lemma nav_all_allow:
  assumes "first_match r p = Some m" and "\<not> isRedirect m" and "guards_allow r m"
  shows "navigateTo p r =
     Some (Fulfilled,
       committed (matchedRoute r) p m
         (logged (guard_calls 0 (length (guards r))
            (map_option path (matchedRoute r)) (path (route m))) r))"
proof -
  from assms(3) have "canChangeRoute (map_option path (matchedRoute r)) (path (route m)) r =
     (Inr \<lparr>shouldNavigate = True, shouldRedirect = False, redirectPath = None\<rparr>,
      logged (guard_calls 0 (length (guards r))
            (map_option path (matchedRoute r)) (path (route m))) r)"
    unfolding canChangeRoute_def guards_allow_def by (rule loop_all_allow)
  from nav_guarded[OF assms(1,2) this] show ?thesis by simp
qed

subsection \<open>A guard that returns false (C1)\<close>

text \<open>
  C1. The navigation matched the route of \<open>m\<close>, which is not a redirect route. Guard
  \<open>k\<close> returns \<^verbatim>\<open>false\<close>, and every guard registered before it returns \<^verbatim>\<open>true\<close> or
  \<^verbatim>\<open>undefined\<close>. Then \<^verbatim>\<open>navigateTo\<close> settles, and the router after it is the router
  before it with nothing but the calls of the guards \<open>0\<close>, ..., \<open>n\<close> added to the
  effects, for some \<open>n \<le> k\<close>: the matched route, the parameters, the query and the hash
  are unchanged, the history is not written, no event is dispatched, and no guard after
  guard \<open>k\<close> is called. Either the promise is fulfilled and guard \<open>k\<close> was the last one
  called, or an earlier guard returned \<^verbatim>\<open>undefined\<close>, guard \<open>n\<close>, and the promise is
  rejected with the TypeError of reading its \<^verbatim>\<open>path\<close>.
\<close>

theorem C1_guard_false_aborts:
  assumes "first_match r p = Some m" and "\<not> isRedirect m"
    and "k < length (guards r)"
    and "(guards r ! k) (map_option path (matchedRoute r)) (path (route m)) = JBool False"
    and "\<forall>j<k. spec_allow ((guards r ! j) (map_option path (matchedRoute r)) (path (route m)))"
  shows "\<exists>c n. n \<le> k \<and>
     navigateTo p r =
       Some (c, r\<lparr>effects := effects r @
                    guard_calls 0 (Suc n) (map_option path (matchedRoute r)) (path (route m))\<rparr>) \<and>
     ((c = Fulfilled \<and> n = k) \<or>
      (c = Rejected TypeError \<and> n < k \<and>
       (guards r ! n) (map_option path (matchedRoute r)) (path (route m)) = JUndefined))"
proof -
  let ?fp = "map_option path (matchedRoute r)" and ?tp = "path (route m)"
  from loop_blocked[OF assms(3,4,5), of 0 r]
  obtain n x where n: "n \<le> k" and
    cc: "canChangeRoute ?fp ?tp r = (x, logged (guard_calls 0 (Suc n) ?fp ?tp) r)" and
    x: "(x = Inl TypeError \<and> n < k \<and> (guards r ! n) ?fp ?tp = JUndefined) \<or>
        (x = Inr \<lparr>shouldNavigate = False, shouldRedirect = False, redirectPath = None\<rparr>
           \<and> n = k)"
    unfolding canChangeRoute_def by blast
  from x show ?thesis
  proof
    assume a: "x = Inl TypeError \<and> n < k \<and> (guards r ! n) ?fp ?tp = JUndefined"
    with nav_guarded[OF assms(1,2) cc]
    have "navigateTo p r = Some (Rejected TypeError, logged (guard_calls 0 (Suc n) ?fp ?tp) r)"
      by simp
    with a n show ?thesis unfolding logged_def by blast
  next
    assume a: "x = Inr \<lparr>shouldNavigate = False, shouldRedirect = False, redirectPath = None\<rparr>
           \<and> n = k"
    with nav_guarded[OF assms(1,2) cc]
    have "navigateTo p r = Some (Fulfilled, logged (guard_calls 0 (Suc n) ?fp ?tp) r)"
      by simp
    with a n show ?thesis unfolding logged_def by blast
  qed
qed

theorem C1_guard_false_aborts_witness:
  "first_match (addGuard guard_false (addGuard guard_true example_router)) ''/one''
     = Some (exact_matcher route_one) \<and>
   \<not> isRedirect (exact_matcher route_one) \<and>
   Suc 0 < length (guards (addGuard guard_false (addGuard guard_true example_router))) \<and>
   (guards (addGuard guard_false (addGuard guard_true example_router)) ! Suc 0) None ''/one''
     = JBool False \<and>
   spec_allow ((guards (addGuard guard_false (addGuard guard_true example_router)) ! 0)
     None ''/one'') \<and>
   (\<exists>c n. n \<le> Suc 0 \<and>
      navigateTo ''/one'' (addGuard guard_false (addGuard guard_true example_router)) =
        Some (c, (addGuard guard_false (addGuard guard_true example_router))
                   \<lparr>effects := guard_calls 0 (Suc n) None ''/one''\<rparr>))"
proof -
  let ?r = "addGuard guard_false (addGuard guard_true example_router)"
  have h1: "first_match ?r ''/one'' = Some (exact_matcher route_one)"
    using example_first_match(2)[of "[]"] by simp
  have h2: "\<not> isRedirect (exact_matcher route_one)" by simp
  have h3: "Suc 0 < length (guards ?r)" by simp
  have h4: "(guards ?r ! Suc 0) (map_option path (matchedRoute ?r))
      (path (route (exact_matcher route_one))) = JBool False"
    by (simp add: guard_false_def)
  have h5: "\<forall>j<Suc 0. spec_allow ((guards ?r ! j) (map_option path (matchedRoute ?r))
      (path (route (exact_matcher route_one))))"
    by (simp add: guard_true_def spec_allow_def)
  from C1_guard_false_aborts[OF h1 h2 h3 h4 h5]
  have "\<exists>c n. n \<le> Suc 0 \<and>
      navigateTo ''/one'' ?r = Some (c, ?r\<lparr>effects := guard_calls 0 (Suc n) None ''/one''\<rparr>)"
    by simp blast
  moreover have "(guards ?r ! Suc 0) None ''/one'' = JBool False"
    by (simp add: guard_false_def)
  moreover have "spec_allow ((guards ?r ! 0) None ''/one'')"
    by (simp add: guard_true_def spec_allow_def)
  ultimately show ?thesis using h1 h2 h3 by blast
qed

subsection \<open>A guard that returns undefined (C2)\<close>

text \<open>
  C2. A router with one guard, which returns \<^verbatim>\<open>undefined\<close>, is asked to navigate to a
  path that matches a route: reading \<^verbatim>\<open>result.path\<close> throws, and the promise of
  \<^verbatim>\<open>navigateTo\<close> is rejected with the TypeError, the navigation not committed.
\<close>

theorem C2_undefined_guard_rejects:
  "navigateTo ''/one'' (addGuard guard_undefined example_router) =
     Some (Rejected TypeError,
       (addGuard guard_undefined example_router)\<lparr>effects := [GuardCall 0 None ''/one'']\<rparr>)"
proof -
  let ?r = "addGuard guard_undefined example_router"
  have h1: "first_match ?r ''/one'' = Some (exact_matcher route_one)"
    using example_first_match(2)[of "[]"] by simp
  have h2: "\<not> isRedirect (exact_matcher route_one)" by simp
  have cc: "canChangeRoute (map_option path (matchedRoute ?r))
      (path (route (exact_matcher route_one))) ?r =
      (Inl TypeError, logged [GuardCall 0 None ''/one''] ?r)"
    by (simp add: canChangeRoute_def guard_undefined_def emit_is_logged)
  from nav_guarded[OF h1 h2 cc] show ?thesis by (simp add: logged_def)
qed

text \<open>Guards that all return \<^verbatim>\<open>true\<close> let the navigation be committed.\<close>

lemma true_guards_commit:
  "navigateTo ''/one'' (addGuard guard_true (addGuard guard_true example_router)) =
     Some (Fulfilled,
       (addGuard guard_true (addGuard guard_true example_router))
         \<lparr>matchedRoute := Some route_one, params := Map.empty, query := Map.empty,
          location_hash := ''#/one'',
          effects := [GuardCall 0 None ''/one'', GuardCall 1 None ''/one'',
                      PushState ''#/one'', Dispatch None route_one]\<rparr>)"
proof -
  let ?r = "addGuard guard_true (addGuard guard_true example_router)"
  have h1: "first_match ?r ''/one'' = Some (exact_matcher route_one)"
    using example_first_match(2)[of "[]"] by simp
  have h2: "\<not> isRedirect (exact_matcher route_one)" by simp
  have h3: "guards_allow ?r (exact_matcher route_one)"
    by (simp add: guards_allow_def verdict_def guard_true_def)
  from nav_all_allow[OF h1 h2 h3] show ?thesis
    by (simp add: committed_def pushState_def emit_def logged_def hash_of_url_def
        exact_matcher_def addGuard_def)
qed

subsection \<open>A guard that redirects (C3)\<close>







subsection \<open>The history write and the notification (C4)\<close>

lemma sync_effects:
  "new_effects r (navigateTo_sync p r) =
     (case first_match r p of
        None \<Rightarrow> [ConsoleWarn (warn_no_match p)]
      | Some m \<Rightarrow> [Dispatch (matchedRoute r) (route m), PushState (''#'' @ p)])"
  by (simp add: new_effects_def navigateTo_sync_def matchRoute_sync_def first_match_def
      pushState_def emit_def Let_def split: option.splits)

text \<open>
  C4, as stated, fails on the router without guards: its \<^verbatim>\<open>navigateTo\<close> dispatches the
  event (in \<^verbatim>\<open>#matchRoute\<close>) before it writes the history.
\<close>

theorem C4_sync_notifies_before_write:
  "new_effects example_router (navigateTo_sync ''/one'' example_router) =
     [Dispatch None route_one, PushState ''#/one''] \<and>
   \<not> notified_after_write False
       (new_effects example_router (navigateTo_sync ''/one'' example_router))"
proof -
  have "new_effects example_router (navigateTo_sync ''/one'' example_router) =
     [Dispatch None route_one, PushState ''#/one'']"
    unfolding sync_effects using example_first_match(2)[of "[]"] by simp
  then show ?thesis by simp
qed

text \<open>
  C4, amended. In the router with guards, the effects of a call of \<^verbatim>\<open>navigateTo\<close> that
  settles are calls of guards, followed by nothing, by the warning, or by one write to
  the history and then one event, for a path whose first matcher is not a redirect and
  whose guards all let it pass: an event comes right after the write of its navigation,
  and there is none for a navigation that matched no route or that a guard stopped. In
  the router without guards, the effects of \<^verbatim>\<open>navigateTo\<close> are the warning when no
  route matches, and otherwise the event and then the write to the history.
\<close>

theorem C4_notification_order:
  "(\<forall>c r2. navigateTo p r = Some (c, r2) \<longrightarrow>
      notified_after_write False (new_effects r r2) \<and>
      (\<exists>gcs. list_all is_GuardCall gcs \<and>
         (new_effects r r2 = gcs \<or>
          (\<exists>q. first_match r q = None \<and> new_effects r r2 = gcs @ [ConsoleWarn (warn_no_match q)]) \<or>
          (\<exists>q m. first_match r q = Some m \<and> \<not> isRedirect m \<and> guards_allow r m \<and>
             new_effects r r2 =
               gcs @ [PushState (''#'' @ q), Dispatch (matchedRoute r) (route m)])))) \<and>
   new_effects r (navigateTo_sync p r) =
     (case first_match r p of
        None \<Rightarrow> [ConsoleWarn (warn_no_match p)]
      | Some m \<Rightarrow> [Dispatch (matchedRoute r) (route m), PushState (''#'' @ p)])"
proof (intro conjI allI impI)
  fix c r2
  assume nav: "navigateTo p r = Some (c, r2)"
  from navigateTo_outcome[OF nav] have o: "outcome r c r2" by simp
  from o show "notified_after_write False (new_effects r r2)"
  proof (cases rule: outcome_cases)
    case (abandoned gcs)
    with notified_after_write_guard_calls[of gcs False "[]"] show ?thesis by simp
  next
    case (cleared gcs q)
    then show ?thesis by (simp add: notified_after_write_guard_calls)
  next
    case (committed gcs q m)
    then show ?thesis by (simp add: notified_after_write_guard_calls)
  qed
  from o show "\<exists>gcs. list_all is_GuardCall gcs \<and>
         (new_effects r r2 = gcs \<or>
          (\<exists>q. first_match r q = None \<and> new_effects r r2 = gcs @ [ConsoleWarn (warn_no_match q)]) \<or>
          (\<exists>q m. first_match r q = Some m \<and> \<not> isRedirect m \<and> guards_allow r m \<and>
             new_effects r r2 =
               gcs @ [PushState (''#'' @ q), Dispatch (matchedRoute r) (route m)]))"
  proof (cases rule: outcome_cases)
    case (abandoned gcs)
    then show ?thesis by (intro exI[of _ gcs]) (simp add: list_all_iff)
  next
    case (cleared gcs q)
    then show ?thesis by (intro exI[of _ gcs]) (auto simp: list_all_iff)
  next
    case (committed gcs q m)
    then show ?thesis by (intro exI[of _ gcs]) (auto simp: list_all_iff)
  qed
next
  show "new_effects r (navigateTo_sync p r) =
     (case first_match r p of
        None \<Rightarrow> [ConsoleWarn (warn_no_match p)]
      | Some m \<Rightarrow> [Dispatch (matchedRoute r) (route m), PushState (''#'' @ p)])"
    by (rule sync_effects)
qed

theorem C4_notification_order_witness:
  "\<exists>r2. navigateTo ''/one'' (addGuard guard_true (addGuard guard_true example_router))
          = Some (Fulfilled, r2) \<and>
     new_effects (addGuard guard_true (addGuard guard_true example_router)) r2 =
       [GuardCall 0 None ''/one'', GuardCall 1 None ''/one'',
        PushState ''#/one'', Dispatch None route_one] \<and>
     notified_after_write False
       (new_effects (addGuard guard_true (addGuard guard_true example_router)) r2)"
proof -
  let ?r = "addGuard guard_true (addGuard guard_true example_router)"
  obtain r2 where nav: "navigateTo ''/one'' ?r = Some (Fulfilled, r2)"
    and eff: "effects r2 = [GuardCall 0 None ''/one'', GuardCall 1 None ''/one'',
        PushState ''#/one'', Dispatch None route_one]"
    using true_guards_commit by simp
  from C4_notification_order[of "''/one''" ?r] nav
  have "notified_after_write False (new_effects ?r r2)" by blast
  moreover have "new_effects ?r r2 = [GuardCall 0 None ''/one'', GuardCall 1 None ''/one'',
        PushState ''#/one'', Dispatch None route_one]"
    using eff by (simp add: new_effects_def)
  ultimately show ?thesis using nav by blast
qed

subsection \<open>No matching route (C5)\<close>

text \<open>
  C5. When no matcher of the router matches the path, \<^verbatim>\<open>navigateTo\<close> is fulfilled (it
  does not throw), and the router after it is the router before it with the matched
  route cleared, the parameters and the query empty, and one more effect, the warning:
  the history is not written and no event is dispatched. Both routers do so.
\<close>

theorem C5_no_match:
  assumes "\<forall>m\<in>set (matchers r). \<not> checkMatch m p"
  shows "navigateTo p r =
       Some (Fulfilled,
         r\<lparr>matchedRoute := None, params := Map.empty, query := Map.empty,
           effects := effects r @ [ConsoleWarn (warn_no_match p)]\<rparr>) \<and>
     navigateTo_sync p r =
       r\<lparr>matchedRoute := None, params := Map.empty, query := Map.empty,
         effects := effects r @ [ConsoleWarn (warn_no_match p)]\<rparr>"
proof -
  from assms have none: "find (\<lambda>m. checkMatch m p) (matchers r) = None"
    by (simp add: find_None_iff)
  then have "first_match r p = None" by (simp add: first_match_def)
  from nav_no_match[OF this] have "navigateTo p r =
       Some (Fulfilled,
         r\<lparr>matchedRoute := None, params := Map.empty, query := Map.empty,
           effects := effects r @ [ConsoleWarn (warn_no_match p)]\<rparr>)"
    by (simp add: cleared_def emit_def)
  moreover from none have "navigateTo_sync p r =
       r\<lparr>matchedRoute := None, params := Map.empty, query := Map.empty,
         effects := effects r @ [ConsoleWarn (warn_no_match p)]\<rparr>"
    by (simp add: navigateTo_sync_def matchRoute_sync_def emit_def)
  ultimately show ?thesis by simp
qed

theorem C5_no_match_witness:
  "list_all (\<lambda>m. \<not> checkMatch m ''/unknown'') (matchers example_router) \<and>
   navigateTo ''/unknown'' example_router =
     Some (Fulfilled, example_router\<lparr>effects := [ConsoleWarn (warn_no_match ''/unknown'')]\<rparr>) \<and>
   navigateTo_sync ''/unknown'' example_router =
     example_router\<lparr>effects := [ConsoleWarn (warn_no_match ''/unknown'')]\<rparr>"
proof -
  have h: "\<forall>m\<in>set (matchers example_router). \<not> checkMatch m ''/unknown''"
    by (simp add: example_router_def new_HashRouter_def exact_matcher_def)
  have same: "example_router\<lparr>matchedRoute := None, params := Map.empty, query := Map.empty,
           effects := effects example_router @ [ConsoleWarn (warn_no_match ''/unknown'')]\<rparr>
     = example_router\<lparr>effects := [ConsoleWarn (warn_no_match ''/unknown'')]\<rparr>"
    by (simp add: example_router_def new_HashRouter_def)
  from C5_no_match[OF h] same h show ?thesis
    by (simp add: list_all_iff)
qed

subsection \<open>Initializing twice (C9)\<close>

lemma count_list_distinct:
  "distinct xs \<Longrightarrow> count_list xs x = (if x \<in> set xs then 1 else 0)"
  by (induction xs) auto

lemma addEventListener_fields [simp]:
  "matchers (addEventListener l r) = matchers r"
  "guards (addEventListener l r) = guards r"
  "isInitialized (addEventListener l r) = isInitialized r"
  "onPopState (addEventListener l r) = onPopState r"
  "location_hash (addEventListener l r) = location_hash r"
  "popstate_listeners (addEventListener l r) =
     (if l \<in> set (popstate_listeners r) then popstate_listeners r
      else popstate_listeners r @ [l])"
  by (simp_all add: addEventListener_def emit_def)

lemma replaceState_fields [simp]:
  "matchers (replaceState u r) = matchers r"
  "guards (replaceState u r) = guards r"
  "isInitialized (replaceState u r) = isInitialized r"
  "onPopState (replaceState u r) = onPopState r"
  "popstate_listeners (replaceState u r) = popstate_listeners r"
  by (simp_all add: replaceState_def emit_def)

lemma matchRoute_sync_fields [simp]:
  "isInitialized (matchRoute_sync p r) = isInitialized r"
  "onPopState (matchRoute_sync p r) = onPopState r"
  "popstate_listeners (matchRoute_sync p r) = popstate_listeners r"
  by (simp_all add: matchRoute_sync_def emit_def split: option.splits)

text \<open>
  C9. On a router that is not initialized, in a page whose listeners are distinct (as
  the listeners of an event target are): when the first \<^verbatim>\<open>init()\<close> is fulfilled, a
  second \<^verbatim>\<open>init()\<close> is fulfilled and leaves the router and the host exactly as the
  first one left them, and the \<^verbatim>\<open>popstate\<close> listener of the router is registered once.
  The same holds of the synchronous \<^verbatim>\<open>init()\<close> of the router without guards.
\<close>

theorem C9_init_idempotent:
  assumes "\<not> isInitialized r" and "distinct (popstate_listeners r)"
  shows "(\<forall>r1. init r = Some (Fulfilled, r1) \<longrightarrow>
            init r1 = Some (Fulfilled, r1) \<and>
            count_list (popstate_listeners r1) (onPopState r1) = 1) \<and>
         init_sync (init_sync r) = init_sync r \<and>
         count_list (popstate_listeners (init_sync r)) (onPopState (init_sync r)) = 1"
proof (intro conjI allI impI)
  fix r1
  assume i: "init r = Some (Fulfilled, r1)"
  define ra where "ra = (if location_hash r = [] then replaceState ''#/'' r else r)"
  define rb where "rb = addEventListener (onPopState ra) ra"
  from i assms(1) obtain r3 where nav: "navigateTo (currentRouteHash rb) rb = Some (Fulfilled, r3)"
    and r1: "r1 = r3\<lparr>isInitialized := True\<rparr>"
    unfolding init_def matchCurrentRoute_def ra_def rb_def Let_def
    by (auto split: option.splits completion.splits)
  from r1 show "init r1 = Some (Fulfilled, r1)" by (simp add: init_def)
  from navigateTo_frame[OF nav] have "popstate_listeners r3 = popstate_listeners rb"
    "onPopState r3 = onPopState rb" by simp_all
  moreover have "onPopState rb = onPopState r" "popstate_listeners ra = popstate_listeners r"
    "onPopState ra = onPopState r"
    by (simp_all add: rb_def ra_def)
  moreover have "count_list (popstate_listeners rb) (onPopState r) = 1"
    unfolding rb_def using assms(2) \<open>onPopState ra = onPopState r\<close>
      \<open>popstate_listeners ra = popstate_listeners r\<close>
    by (simp add: count_list_distinct)
  ultimately show "count_list (popstate_listeners r1) (onPopState r1) = 1"
    using r1 by simp
next
  show "init_sync (init_sync r) = init_sync r"
    by (simp add: init_sync_def Let_def)
next
  define ra where "ra = (if location_hash r = [] then replaceState ''#/'' r else r)"
  have ra: "popstate_listeners ra = popstate_listeners r" "onPopState ra = onPopState r"
    by (simp_all add: ra_def)
  have "count_list (popstate_listeners (addEventListener (onPopState ra) ra)) (onPopState r) = 1"
    using assms(2) ra by (simp add: count_list_distinct)
  with assms(1) ra show
    "count_list (popstate_listeners (init_sync r)) (onPopState (init_sync r)) = 1"
    by (simp add: init_sync_def Let_def matchCurrentRoute_sync_def ra_def)
qed

lemma example_init:
  "init example_router =
     Some (Fulfilled,
       example_router
         \<lparr>matchedRoute := Some route_home, params := Map.empty, query := Map.empty,
          isInitialized := True, location_hash := ''#/'', popstate_listeners := [0],
          effects := [ReplaceState ''#/'', AddEventListener 0,
                      PushState ''#/'', Dispatch None route_home]\<rparr>)"
proof -
  let ?r2 = "addEventListener 0 (replaceState ''#/'' example_router)"
  have r2: "?r2 = logged [ReplaceState ''#/'', AddEventListener 0]
      (example_router\<lparr>location_hash := ''#/'', popstate_listeners := [0]\<rparr>)"
    by (simp add: addEventListener_def replaceState_def emit_def logged_def hash_of_url_def
        example_router_def new_HashRouter_def)
  let ?b = "example_router\<lparr>location_hash := ''#/'', popstate_listeners := [0]\<rparr>"
  have h1: "first_match ?r2 ''/'' = Some (exact_matcher route_home)"
    unfolding r2 using example_first_match(1)[of "[]"] by (simp add: first_match_def)
  have h2: "\<not> isRedirect (exact_matcher route_home)" by simp
  have h3: "guards_allow ?r2 (exact_matcher route_home)"
    unfolding r2 by (simp add: guards_allow_def)
  have cur: "currentRouteHash ?r2 = ''/''"
    unfolding r2 by (simp add: currentRouteHash_def)
  from nav_all_allow[OF h1 h2 h3] have
    "navigateTo ''/'' ?r2 = Some (Fulfilled,
        example_router
         \<lparr>matchedRoute := Some route_home, params := Map.empty, query := Map.empty,
          location_hash := ''#/'', popstate_listeners := [0],
          effects := [ReplaceState ''#/'', AddEventListener 0,
                      PushState ''#/'', Dispatch None route_home]\<rparr>)"
    unfolding r2
    by (simp add: committed_def pushState_def emit_def logged_def hash_of_url_def
        exact_matcher_def example_router_def new_HashRouter_def)
  with cur show ?thesis
    by (simp add: init_def matchCurrentRoute_def Let_def example_router_def new_HashRouter_def)
qed

theorem C9_init_idempotent_witness:
  "\<not> isInitialized example_router \<and> distinct (popstate_listeners example_router) \<and>
   (\<exists>r1. init example_router = Some (Fulfilled, r1) \<and> init r1 = Some (Fulfilled, r1) \<and>
      matchedRoute r1 = Some route_home \<and>
      count_list (popstate_listeners r1) (onPopState r1) = 1) \<and>
   init_sync (init_sync example_router) = init_sync example_router"
proof -
  have h1: "\<not> isInitialized example_router" and h2: "distinct (popstate_listeners example_router)"
    by (simp_all add: example_router_def new_HashRouter_def)
  obtain r1 where i: "init example_router = Some (Fulfilled, r1)"
    and m: "matchedRoute r1 = Some route_home"
    using example_init by simp
  from C9_init_idempotent[OF h1 h2] i
  have "init r1 = Some (Fulfilled, r1) \<and> count_list (popstate_listeners r1) (onPopState r1) = 1"
    and "init_sync (init_sync example_router) = init_sync example_router"
    by blast+
  with h1 h2 i m show ?thesis by blast
qed

subsection \<open>Termination (C10)\<close>

lemma canChangeRoute_logged:
  "fst (canChangeRoute fp tp (logged es r)) = fst (canChangeRoute fp tp r)"
  unfolding canChangeRoute_def by (simp add: loop_result_independent[of 0 _ fp tp "logged es r" 0 r])

lemma redirect_target_logged [simp]: "redirect_target (logged es r) q = redirect_target r q"
  by (simp add: redirect_target_def canChangeRoute_logged cong: option.case_cong if_cong)





subsection \<open>A cycle of redirect routes\<close>

lemma redirect_cycle_unwinds:
  assumes "first_match r p = Some m" and "redirect (route m) = Some q"
    and "first_match r q = Some m'" and "redirect (route m') = Some p"
  shows "navigateTo_at d p r = Some (Rejected RangeError, r) \<and>
         navigateTo_at d q r = Some (Rejected RangeError, r)"
proof (induction "stack_limit r - d" arbitrary: d)
  case 0
  then have full: "\<not> d < stack_limit r" by simp
  from assms(2,4) have "isRedirect m" "isRedirect m'" by (simp_all add: isRedirect_def)
  from nav_at_redirect_route[where d = d, OF assms(1) this(1)]
    nav_at_redirect_route[where d = d, OF assms(3) this(2)] full
  show ?case by simp
next
  case (Suc k)
  then have room: "d < stack_limit r" and k: "k = stack_limit r - Suc d" by simp_all
  from assms(2,4) have "isRedirect m" "isRedirect m'" by (simp_all add: isRedirect_def)
  from nav_at_redirect_route[where d = d, OF assms(1) this(1)]
    nav_at_redirect_route[where d = d, OF assms(3) this(2)] room assms(2,4) Suc.hyps(1)[OF k]
  show ?case by simp
qed

text \<open>
  Two redirect routes that redirect to each other, or one that redirects to itself: the
  calls of \<^verbatim>\<open>navigateTo\<close> pile up on the stack with no await between them, and
  whatever room the stack has, the promise is rejected with the RangeError, the router
  unchanged.
\<close>

lemma redirect_cycle_rejected:
  assumes "first_match r p = Some m" and "redirect (route m) = Some q"
    and "first_match r q = Some m'" and "redirect (route m') = Some p"
  shows "navigateTo p r = Some (Rejected RangeError, r)"
  unfolding navigateTo_def using redirect_cycle_unwinds[OF assms, of 0] by simp

lemma loop_router_first_match:
  "first_match loop_router ''/ping'' = Some (exact_matcher route_ping)"
  "first_match loop_router ''/pong'' = Some (exact_matcher route_pong)"
  by (simp_all add: first_match_def loop_router_def new_HashRouter_def exact_matcher_def
      route_ping_def route_pong_def)

lemma redirect_loop_rejected:
  "navigateTo ''/ping'' loop_router = Some (Rejected RangeError, loop_router)"
  by (rule redirect_cycle_rejected[OF loop_router_first_match(1) _ loop_router_first_match(2)])
    simp_all

subsection \<open>A cycle of guard redirects\<close>










section \<open>Properties of the compiler\<close>

subsection \<open>Taking lines from the stack\<close>

lemma addLineFromStack_Cons:
  assumes "stack c = x # rest" and "lines c \<noteq> []"
  shows "lines (addLineFromStack c) =
           butlast (lines c) @
             [if ends_with_comma (last (lines c)) \<and> starts_with_closing x
              then slice_end 1 (last (lines c)) else last (lines c), x]"
    and "stack (addLineFromStack c) = rest"
    and "imports_set (addLineFromStack c) = imports_set c"
  using assms by (simp_all add: addLineFromStack_def)

lemma pops:
  assumes "stack c = xs @ rest" and "lines c \<noteq> []"
  shows "\<exists>M. lines ((addLineFromStack ^^ length xs) c) = butlast (lines c) @ M \<and> M \<noteq> [] \<and>
           stack ((addLineFromStack ^^ length xs) c) = rest \<and>
           imports_set ((addLineFromStack ^^ length xs) c) = imports_set c"
  using assms
proof (induction xs arbitrary: c)
  case Nil
  then show ?case by (intro exI[of _ "[last (lines c)]"]) simp
next
  case (Cons x xs)
  let ?c1 = "addLineFromStack c"
  from Cons.prems have st: "stack c = x # (xs @ rest)" by simp
  note step = addLineFromStack_Cons[OF st Cons.prems(2)]
  from step(1) have ne: "lines ?c1 \<noteq> []" by simp
  from Cons.IH[OF step(2) ne] obtain M where
    M: "lines ((addLineFromStack ^^ length xs) ?c1) = butlast (lines ?c1) @ M" "M \<noteq> []"
       "stack ((addLineFromStack ^^ length xs) ?c1) = rest"
       "imports_set ((addLineFromStack ^^ length xs) ?c1) = imports_set ?c1"
    by blast
  have f: "(addLineFromStack ^^ length (x # xs)) c = (addLineFromStack ^^ length xs) ?c1"
    by (simp add: funpow_swap1)
  from step(1) obtain a where a: "butlast (lines ?c1) = butlast (lines c) @ [a]"
    by (simp add: butlast_append)
  show ?case unfolding f using M a step(3)
    by (intro exI[of _ "a # M"]) simp
qed

lemma drain_funpow: "drain c = (addLineFromStack ^^ length (stack c)) c"
proof (induction c rule: drain.induct)
  case (1 c)
  show ?case
  proof (cases "stack c")
    case Nil
    then show ?thesis by (subst drain.simps) simp
  next
    case (Cons x rest)
    then have "length (stack (addLineFromStack c)) = length rest"
      by (simp add: addLineFromStack_def)
    with 1 Cons show ?thesis
      by (subst drain.simps) (simp add: funpow_swap1)
  qed
qed

subsection \<open>Nodes keep the lines and the stack in step\<close>

lemma growsI:
  assumes "lines c' = butlast (lines c) @ l # mid"
    and "l = last (lines c) \<or> (l = slice_end 2 (last (lines c)) \<and> mid \<noteq> [])"
    and "stack c' = drop k (hd (stack c)) # tl (stack c)"
    and "imports_set c \<subseteq> imports_set c'"
    and "imports_set c' \<subseteq> imports_set c \<union> {''h'', ''hString''}"
  shows "grows c c'"
  unfolding grows_def using assms by blast

lemma grows_refl:
  assumes "lines c \<noteq> []" and "stack c \<noteq> []"
  shows "grows c c"
proof (rule growsI[where l = "last (lines c)" and mid = "[]" and k = 0])
  show "lines c = butlast (lines c) @ [last (lines c)]" using assms(1) by simp
  show "stack c = drop 0 (hd (stack c)) # tl (stack c)" using assms(2) by simp
qed auto

lemma grows_nonempty:
  assumes "grows c c'"
  shows "lines c' \<noteq> []" and "stack c' \<noteq> []"
proof -
  from assms obtain l mid k where "lines c' = butlast (lines c) @ l # mid"
    "stack c' = drop k (hd (stack c)) # tl (stack c)"
    unfolding grows_def by blast
  then show "lines c' \<noteq> []" and "stack c' \<noteq> []" by simp_all
qed

lemma grows_trans:
  assumes ab: "grows a b" and bc: "grows b c"
  shows "grows a c"
proof -
  from ab obtain l mid k where
    b: "lines b = butlast (lines a) @ l # mid"
       "l = last (lines a) \<or> (l = slice_end 2 (last (lines a)) \<and> mid \<noteq> [])"
       "stack b = drop k (hd (stack a)) # tl (stack a)"
    unfolding grows_def by blast
  from bc obtain l2 mid2 k2 where
    c: "lines c = butlast (lines b) @ l2 # mid2"
       "l2 = last (lines b) \<or> (l2 = slice_end 2 (last (lines b)) \<and> mid2 \<noteq> [])"
       "stack c = drop k2 (hd (stack b)) # tl (stack b)"
    unfolding grows_def by blast
  have lines: "\<exists>l mid. lines c = butlast (lines a) @ l # mid \<and>
        (l = last (lines a) \<or> (l = slice_end 2 (last (lines a)) \<and> mid \<noteq> []))"
  proof (cases "mid = []")
    case True
    with b have "butlast (lines b) = butlast (lines a)" "last (lines b) = last (lines a)"
      by auto
    with c show ?thesis by auto
  next
    case False
    with b have "butlast (lines b) = butlast (lines a) @ l # butlast mid"
      by (simp add: butlast_append)
    with c have "lines c = butlast (lines a) @ l # (butlast mid @ l2 # mid2)" by simp
    with b(2) show ?thesis by blast
  qed
  from b(3) c(3) have "stack c = drop (k + k2) (hd (stack a)) # tl (stack a)"
    by (simp add: add.commute)
  then have stack: "\<exists>k. stack c = drop k (hd (stack a)) # tl (stack a)" by blast
  from ab bc have "imports_set a \<subseteq> imports_set c"
    "imports_set c \<subseteq> imports_set a \<union> {''h'', ''hString''}"
    unfolding grows_def by blast+
  with lines stack show ?thesis unfolding grows_def by blast
qed

lemma addText_grows:
  assumes "lines c \<noteq> []" and "stack c \<noteq> []"
  shows "grows c (addText h t c)"
proof (cases "trim t = []")
  case True
  with assms show ?thesis by (simp add: addText_def grows_refl)
next
  case False
  let ?x = "''hString('' @ interpolateVariables h (trim t) @ ''),''"
  from False have eq: "addText h t c =
      c\<lparr>lines := lines c @ [?x], imports_set := insert ''hString'' (imports_set c)\<rparr>"
    by (simp add: addText_def)
  show ?thesis
  proof (rule growsI[where l = "last (lines c)" and mid = "[?x]" and k = 0])
    show "lines (addText h t c) = butlast (lines c) @ last (lines c) # [?x]"
      unfolding eq using assms(1) by simp
    show "stack (addText h t c) = drop 0 (hd (stack c)) # tl (stack c)"
      unfolding eq using assms(2) by simp
    show "imports_set c \<subseteq> imports_set (addText h t c)" unfolding eq by auto
    show "imports_set (addText h t c) \<subseteq> imports_set c \<union> {''h'', ''hString''}"
      unfolding eq by auto
  qed simp
qed

lemma addNodes_grows_if:
  assumes "\<And>n c. n \<in> set ns \<Longrightarrow> lines c \<noteq> [] \<Longrightarrow> stack c \<noteq> [] \<Longrightarrow>
             \<exists>c'. addNode h n c = Inr c' \<and> grows c c'"
    and "lines c \<noteq> []" and "stack c \<noteq> []"
  shows "\<exists>c'. addNodes h ns c = Inr c' \<and> grows c c'"
  using assms
proof (induction ns arbitrary: c)
  case Nil
  then show ?case by (simp add: grows_refl)
next
  case (Cons n ns)
  from Cons.prems(1)[of n c] Cons.prems(2,3)
  obtain c1 where c1: "addNode h n c = Inr c1" "grows c c1" by auto
  from Cons.IH[of c1] Cons.prems(1) grows_nonempty[OF c1(2)]
  obtain c2 where c2: "addNodes h ns c1 = Inr c2" "grows c1 c2" by auto
  from c1(1) c2(1) have "addNodes h (n # ns) c = Inr c2" by simp
  moreover from c1(2) c2(2) have "grows c c2" by (rule grows_trans)
  ultimately show ?case by blast
qed

lemma openElement_fields [simp]:
  "lines (openElement tag props c) = lines c @ [''h('' @ tag @ '', '' @ props @ '', ['']"
  "stack (openElement tag props c) = '']),'' # stack c"
  "imports_set (openElement tag props c) = insert ''h'' (imports_set c)"
  by (simp_all add: openElement_def)

lemma openShow_fields [simp]:
  "lines (openShow s c) = lines c @ [s @ '' ?'']"
  "stack (openShow s c) = '': null'' # stack c"
  "imports_set (openShow s c) = imports_set c"
  by (simp_all add: openShow_def)

lemma openFor_Inr:
  assumes "lines c \<noteq> []" and "stack c \<noteq> []"
  shows "\<exists>c1. openFor fd c = Inr c1 \<and>
           lines c1 = butlast (lines c) @ [slice_end 2 (last (lines c)), line fd] \<and>
           stack c1 = closing fd # drop 1 (hd (stack c)) # tl (stack c) \<and>
           imports_set c1 = imports_set c"
  using assms by (simp add: openFor_def)

lemma close_element:
  assumes c2l: "lines c2 = butlast (lines c) @ l0 # ops"
    and l0: "l0 = last (lines c) \<or> l0 = slice_end 2 (last (lines c))"
    and c2s: "stack c2 = cls @ drop k0 (hd (stack c)) # tl (stack c)"
    and c2i: "imports_set c2 = imports_set c"
    and kids: "\<And>c. lines c \<noteq> [] \<Longrightarrow> stack c \<noteq> [] \<Longrightarrow>
                 \<exists>c'. addNodes h ns c = Inr c' \<and> grows c c'"
  shows "\<exists>c3. addNodes h ns (openElement tag props c2) = Inr c3 \<and>
           grows c ((addLineFromStack ^^ Suc (length cls)) c3)"
proof -
  let ?o = "openElement tag props c2"
  let ?hl = "''h('' @ tag @ '', '' @ props @ '', [''"
  from kids[of ?o] obtain c3 where c3: "addNodes h ns ?o = Inr c3" and g: "grows ?o c3"
    by auto
  from g obtain l mid k where
    l3: "lines c3 = butlast (lines ?o) @ l # mid" and
    s3: "stack c3 = drop k (hd (stack ?o)) # tl (stack ?o)" and
    i3: "imports_set ?o \<subseteq> imports_set c3"
        "imports_set c3 \<subseteq> imports_set ?o \<union> {''h'', ''hString''}"
    unfolding grows_def by blast
  from l3 have l3': "lines c3 = lines c2 @ l # mid" by simp
  from s3 c2s have s3': "stack c3 = (drop k '']),'' # cls) @ drop k0 (hd (stack c)) # tl (stack c)"
    by simp
  from l3' have ne: "lines c3 \<noteq> []" by simp
  let ?c' = "(addLineFromStack ^^ Suc (length cls)) c3"
  from pops[OF s3' ne] obtain M where
    M: "lines ?c' = butlast (lines c3) @ M" "M \<noteq> []"
       "stack ?c' = drop k0 (hd (stack c)) # tl (stack c)"
       "imports_set ?c' = imports_set c3"
    by auto
  have "butlast (lines c3) = lines c2 @ butlast (l # mid)"
    unfolding l3' by (simp add: butlast_append)
  with M(1) c2l have lines: "lines ?c' = butlast (lines c) @ l0 # (ops @ butlast (l # mid) @ M)"
    by simp
  have "grows c ?c'"
  proof (rule growsI[where l = l0 and mid = "ops @ butlast (l # mid) @ M" and k = k0])
    show "lines ?c' = butlast (lines c) @ l0 # ops @ butlast (l # mid) @ M" by (rule lines)
    show "l0 = last (lines c) \<or>
        (l0 = slice_end 2 (last (lines c)) \<and> ops @ butlast (l # mid) @ M \<noteq> [])"
      using l0 M(2) by auto
    show "stack ?c' = drop k0 (hd (stack c)) # tl (stack c)" by (rule M(3))
    show "imports_set c \<subseteq> imports_set ?c'" using M(4) i3(1) c2i by auto
    show "imports_set ?c' \<subseteq> imports_set c \<union> {''h'', ''hString''}"
      using M(4) i3(2) c2i by auto
  qed
  with c3 show ?thesis by blast
qed

lemma addNode_Element:
  "addNode h (Element t as ns) c =
     (let tag = normalizeTagName h t;
          sp = splitAttributes h as;
          props = extractProps h (attrs sp) (bindings sp) (events sp)
      in case directives sp ''for'' of
           None \<Rightarrow>
             (case directives sp ''show'' of
                None \<Rightarrow>
                  (case addNodes h ns (openElement tag props c) of
                     Inl e \<Rightarrow> Inl e
                   | Inr c3 \<Rightarrow> Inr ((addLineFromStack ^^ 1) c3))
              | Some s \<Rightarrow>
                  (case addNodes h ns (openElement tag props (openShow (addThisContext h s) c)) of
                     Inl e \<Rightarrow> Inl e
                   | Inr c3 \<Rightarrow> Inr ((addLineFromStack ^^ 2) c3)))
         | Some f \<Rightarrow>
             (case openFor (formatForDirective h f) c of
                Inl e \<Rightarrow> Inl e
              | Inr c1 \<Rightarrow>
                  (case directives sp ''show'' of
                     None \<Rightarrow>
                       (case addNodes h ns (openElement tag props c1) of
                          Inl e \<Rightarrow> Inl e
                        | Inr c3 \<Rightarrow> Inr ((addLineFromStack ^^ 2) c3))
                   | Some s \<Rightarrow>
                       (case addNodes h ns
                               (openElement tag props (openShow (addThisContext h s) c1)) of
                          Inl e \<Rightarrow> Inl e
                        | Inr c3 \<Rightarrow> Inr ((addLineFromStack ^^ 3) c3)))))"
  by (simp add: Let_def numeral_2_eq_2 numeral_3_eq_3 split: option.splits sum.splits)

declare addNode.simps(1) [simp del]

lemma addNode_grows:
  assumes "lines c \<noteq> []" and "stack c \<noteq> []"
  shows "\<exists>c'. addNode h n c = Inr c' \<and> grows c c'"
  using assms
proof (induction n arbitrary: c)
  case (Element t as ns)
  have kids: "\<exists>c'. addNodes h ns c = Inr c' \<and> grows c c'"
    if "lines c \<noteq> []" "stack c \<noteq> []" for c
    using Element.IH that by (intro addNodes_grows_if) auto
  define tag where "tag = normalizeTagName h t"
  define sp where "sp = splitAttributes h as"
  define props where "props = extractProps h (attrs sp) (bindings sp) (events sp)"
  have c0: "lines c = butlast (lines c) @ last (lines c) # []"
    "stack c = [] @ drop 0 (hd (stack c)) # tl (stack c)"
    using Element.prems by simp_all
  show ?case
  proof (cases "directives sp ''for''")
    case None
    show ?thesis
    proof (cases "directives sp ''show''")
      case sn: None
      from close_element[of c c "last (lines c)" "[]" "[]" 0 h ns tag props, OF c0(1) _ c0(2) _ kids]
      obtain c3 where "addNodes h ns (openElement tag props c) = Inr c3"
        "grows c ((addLineFromStack ^^ Suc 0) c3)"
        by auto
      with None sn show ?thesis
        unfolding addNode_Element by (simp add: Let_def sp_def tag_def props_def)
    next
      case (Some s)
      let ?c2 = "openShow (addThisContext h s) c"
      have l: "lines ?c2 = butlast (lines c) @ last (lines c) # [addThisContext h s @ '' ?'']"
        using Element.prems by simp
      have st: "stack ?c2 = ['': null''] @ drop 0 (hd (stack c)) # tl (stack c)"
        using Element.prems by simp
      from close_element[of ?c2 c "last (lines c)" _ "['': null'']" 0 h ns tag props,
          OF l _ st _ kids]
      obtain c3 where "addNodes h ns (openElement tag props ?c2) = Inr c3"
        "grows c ((addLineFromStack ^^ Suc (Suc 0)) c3)"
        by auto
      with None Some show ?thesis
        unfolding addNode_Element
        by (simp add: Let_def sp_def tag_def props_def numeral_2_eq_2)
    qed
  next
    case (Some f)
    let ?fd = "formatForDirective h f"
    from openFor_Inr[OF Element.prems, of ?fd] obtain c1 where
      c1: "openFor ?fd c = Inr c1"
          "lines c1 = butlast (lines c) @ [slice_end 2 (last (lines c)), line ?fd]"
          "stack c1 = closing ?fd # drop 1 (hd (stack c)) # tl (stack c)"
          "imports_set c1 = imports_set c"
      by blast
    show ?thesis
    proof (cases "directives sp ''show''")
      case sn: None
      have l: "lines c1 = butlast (lines c) @ slice_end 2 (last (lines c)) # [line ?fd]"
        using c1(2) by simp
      have st: "stack c1 = [closing ?fd] @ drop 1 (hd (stack c)) # tl (stack c)"
        using c1(3) by simp
      from close_element[of c1 c _ _ "[closing ?fd]" 1 h ns tag props, OF l _ st c1(4) kids]
      obtain c3 where "addNodes h ns (openElement tag props c1) = Inr c3"
        "grows c ((addLineFromStack ^^ Suc (Suc 0)) c3)"
        by auto
      with Some sn c1(1) show ?thesis
        unfolding addNode_Element
        by (simp add: Let_def sp_def tag_def props_def numeral_2_eq_2)
    next
      case ss: (Some s)
      let ?c2 = "openShow (addThisContext h s) c1"
      have l: "lines ?c2 = butlast (lines c) @ slice_end 2 (last (lines c)) #
          [line ?fd, addThisContext h s @ '' ?'']"
        using c1(2) by simp
      have st: "stack ?c2 = ['': null'', closing ?fd] @ drop 1 (hd (stack c)) # tl (stack c)"
        using c1(3) by simp
      have i: "imports_set ?c2 = imports_set c" using c1(4) by simp
      from close_element[of ?c2 c _ _ "['': null'', closing ?fd]" 1 h ns tag props,
          OF l _ st i kids]
      obtain c3 where "addNodes h ns (openElement tag props ?c2) = Inr c3"
        "grows c ((addLineFromStack ^^ Suc (Suc (Suc 0))) c3)"
        by auto
      with Some ss c1(1) show ?thesis
        unfolding addNode_Element
        by (simp add: Let_def sp_def tag_def props_def numeral_3_eq_3)
    qed
  qed
next
  case (TextNode t)
  then show ?case by (simp add: addText_grows)
next
  case OtherNode
  then show ?case by (simp add: grows_refl)
qed

lemma addNodes_grows:
  assumes "lines c \<noteq> []" and "stack c \<noteq> []"
  shows "\<exists>c'. addNodes h ns c = Inr c' \<and> grows c c'"
  using assms by (intro addNodes_grows_if addNode_grows)

subsection \<open>Evaluating the example templates\<close>

lemma is_space_simps [simp]:
  "is_space CHR '' ''" "\<not> is_space CHR '',''" "\<not> is_space CHR '')''" "\<not> is_space CHR '']''"
  "\<not> is_space CHR '':''" "\<not> is_space CHR ''l''" "\<not> is_space CHR ''[''" "\<not> is_space CHR ''(''"
  "\<not> is_space CHR ''}''" "\<not> is_space CHR ''?''"
  by (simp_all add: is_space_def)

lemma closers_simps [simp]:
  "starts_with_closing '': null''" "starts_with_closing ''])''" "starts_with_closing '')''"
  "starts_with_closing '']),''" "starts_with_closing ''),''"
  "\<not> starts_with_closing '',''" "\<not> starts_with_closing []" "\<not> starts_with_closing ''}''"
  "ends_with_comma '']),''" "ends_with_comma ''),''" "ends_with_comma '',''"
  "\<not> ends_with_comma []" "\<not> ends_with_comma '': null''" "\<not> ends_with_comma ''])''"
  "\<not> ends_with_comma '')''" "\<not> ends_with_comma (s @ '', ['')"
  by (simp_all add: starts_with_closing_def ends_with_comma_def)

lemma example_compile_item:
  "compile example_helpers template_item =
     Inr ({''h'', ''hString''},
       ''function render() { return each(a in as) => this.ok ? h(li, {}, [ hString(x) ]) : null )  }'')"
  by code_simp

lemma example_compile_two:
  "compile example_helpers template_two =
     Inr ({''h'', ''hString'', ''hFragment''},
       ''function render() { return ( h(Fragment, {}, [ h(p, {}, [ hString(x) ]), h(p, {}, [ hString(y) ]) ]) ) }'')"
  by code_simp

lemma example_compile_lists:
  "compile example_helpers template_lists =
     Inr ({''h'', ''hString'', ''hFragment''},
       ''function render() { return ( h(Fragment, {}, each(a in as) => h(li, {}, [ ])  each(b in bs) => h(li, {}, [ ]) ) hString(x),  ) }'')"
  by code_simp

lemma example_separator:
  "separator_before_closing
     ''function render() { return ( h(Fragment, {}, each(a in as) => h(li, {}, [ ])  each(b in bs) => h(li, {}, [ ]) ) hString(x),  ) }''"
  by code_simp

subsection \<open>Nodes without a \<^verbatim>\<open>for\<close> directive append their lines\<close>

lemma cut_comma_Nil [simp]: "cut_comma [] = []"
  by (simp add: cut_comma_def)

lemma cut_comma_append:
  "ls \<noteq> [] \<Longrightarrow> cut_comma (pre @ ls) = pre @ cut_comma ls"
  by (simp add: cut_comma_def butlast_append)

lemma cut_comma_plain:
  "\<not> ends_with_comma l \<Longrightarrow> cut_comma (pre @ [l]) = pre @ [l]"
  by (simp add: cut_comma_def)

lemma cut_comma_after:
  "\<not> ends_with_comma l \<Longrightarrow> cut_comma (pre @ l # ls) = pre @ l # cut_comma ls"
proof (cases "ls = []")
  case True
  assume "\<not> ends_with_comma l"
  with True cut_comma_plain[of l pre] show ?thesis by simp
next
  case False
  with cut_comma_append[of ls "pre @ [l]"] show ?thesis by simp
qed

lemma cut_comma_closer: "cut_comma (ls @ ['']),'']) = ls @ [''])'']"
  by (simp add: cut_comma_def slice_end_def)

lemma addLineFromStack_closing:
  assumes "stack c = x # rest" and "lines c \<noteq> []" and "starts_with_closing x"
  shows "lines (addLineFromStack c) = cut_comma (lines c) @ [x]"
    and "stack (addLineFromStack c) = rest"
    and "imports_set (addLineFromStack c) = imports_set c"
  using assms by (simp_all add: addLineFromStack_def cut_comma_def)

lemma addLineFromStack_plain:
  assumes "stack c = x # rest" and "lines c \<noteq> []"
    and "\<not> ends_with_comma (last (lines c)) \<or> \<not> starts_with_closing x"
  shows "lines (addLineFromStack c) = lines c @ [x]"
    and "stack (addLineFromStack c) = rest"
    and "imports_set (addLineFromStack c) = imports_set c"
  using assms by (auto simp: addLineFromStack_def)

lemma close_appends:
  assumes c2l: "lines c2 = lines c @ ops" and c2s: "stack c2 = cls @ stack c"
  shows "\<exists>c3 ls. addNodes h ns (openElement tag props c2) = Inr c3 \<and>
           lines ((addLineFromStack ^^ Suc (length cls)) c3) = lines c @ ls \<and>
           stack ((addLineFromStack ^^ Suc (length cls)) c3) = stack c"
proof -
  let ?o = "openElement tag props c2"
  have "lines ?o \<noteq> []" "stack ?o \<noteq> []" by simp_all
  from addNodes_grows[OF this, of h ns] obtain c3 where
    c3: "addNodes h ns ?o = Inr c3" and g: "grows ?o c3"
    by blast
  from g obtain l mid k where
    l3: "lines c3 = butlast (lines ?o) @ l # mid" and
    s3: "stack c3 = drop k (hd (stack ?o)) # tl (stack ?o)"
    unfolding grows_def by blast
  have "butlast (lines ?o) = lines c2" by simp
  with l3 c2l have l3': "lines c3 = (lines c @ ops) @ l # mid" by simp
  from s3 c2s have s3': "stack c3 = (drop k '']),'' # cls) @ stack c" by simp
  from l3' have ne: "lines c3 \<noteq> []" by simp
  from pops[OF s3' ne] obtain M where
    M: "lines ((addLineFromStack ^^ Suc (length cls)) c3) = butlast (lines c3) @ M"
       "stack ((addLineFromStack ^^ Suc (length cls)) c3) = stack c"
    by auto
  have "butlast (lines c3) = lines c @ ops @ butlast (l # mid)"
    unfolding l3' by (simp add: butlast_append)
  with M(1) have "lines ((addLineFromStack ^^ Suc (length cls)) c3) =
      lines c @ (ops @ butlast (l # mid) @ M)"
    by simp
  with c3 M(2) show ?thesis by blast
qed

lemma addNode_appends:
  assumes "\<not> carries_for h n" and "lines c \<noteq> []" and "stack c \<noteq> []"
  shows "\<exists>c' ls. addNode h n c = Inr c' \<and> lines c' = lines c @ ls \<and> stack c' = stack c"
proof (cases n)
  case (Element t as ns)
  with assms(1) have nofor: "directives (splitAttributes h as) ''for'' = None" by simp
  define tag where "tag = normalizeTagName h t"
  define sp where "sp = splitAttributes h as"
  define props where "props = extractProps h (attrs sp) (bindings sp) (events sp)"
  show ?thesis
  proof (cases "directives sp ''show''")
    case None
    from close_appends[of c c "[]" "[]" h ns tag props]
    obtain c3 ls where "addNodes h ns (openElement tag props c) = Inr c3"
      "lines ((addLineFromStack ^^ Suc 0) c3) = lines c @ ls"
      "stack ((addLineFromStack ^^ Suc 0) c3) = stack c"
      by auto
    with nofor None show ?thesis
      unfolding Element addNode_Element by (simp add: Let_def sp_def tag_def props_def)
  next
    case (Some s)
    let ?c2 = "openShow (addThisContext h s) c"
    have l: "lines ?c2 = lines c @ [addThisContext h s @ '' ?'']"
      and st: "stack ?c2 = ['': null''] @ stack c"
      by simp_all
    from close_appends[OF l st, of h ns tag props]
    obtain c3 ls where "addNodes h ns (openElement tag props ?c2) = Inr c3"
      "lines ((addLineFromStack ^^ Suc (Suc 0)) c3) = lines c @ ls"
      "stack ((addLineFromStack ^^ Suc (Suc 0)) c3) = stack c"
      by auto
    with nofor Some show ?thesis
      unfolding Element addNode_Element
      by (simp add: Let_def sp_def tag_def props_def numeral_2_eq_2)
  qed
next
  case (TextNode t)
  show ?thesis
  proof (cases "trim t = []")
    case True
    with TextNode show ?thesis by (simp add: addText_def)
  next
    case False
    with TextNode show ?thesis by (simp add: addText_def)
  qed
next
  case OtherNode
  then show ?thesis by simp
qed

lemma addNodes_appends:
  assumes "list_all (\<lambda>n. \<not> carries_for h n) ns" and "lines c \<noteq> []" and "stack c \<noteq> []"
  shows "\<exists>c' ls. addNodes h ns c = Inr c' \<and> lines c' = lines c @ ls \<and> stack c' = stack c"
  using assms
proof (induction ns arbitrary: c)
  case Nil
  then show ?case by simp
next
  case (Cons n ns)
  from Cons.prems(1) have n: "\<not> carries_for h n" and rest: "list_all (\<lambda>n. \<not> carries_for h n) ns"
    by simp_all
  from addNode_appends[OF n Cons.prems(2,3)] obtain c1 ls1 where
    c1: "addNode h n c = Inr c1" "lines c1 = lines c @ ls1" "stack c1 = stack c"
    by blast
  from c1(2,3) Cons.prems(2,3) have "lines c1 \<noteq> []" "stack c1 \<noteq> []" by simp_all
  from Cons.IH[OF rest this] obtain c2 ls2 where
    c2: "addNodes h ns c1 = Inr c2" "lines c2 = lines c1 @ ls2" "stack c2 = stack c1"
    by blast
  from c1 c2 have "addNodes h (n # ns) c = Inr c2" "lines c2 = lines c @ (ls1 @ ls2)"
    "stack c2 = stack c"
    by simp_all
  then show ?case by blast
qed

lemma join_space_Cons: "join_space (l # ls) = l @ concat (map ((@) '' '') ls)"
  by (induction ls arbitrary: l) simp_all

subsection \<open>Siblings with a \<^verbatim>\<open>for\<close> directive\<close>

text \<open>
  The block of \<^verbatim>\<open>#addElement\<close> for a \<^verbatim>\<open>for\<close> directive cuts the last line and the
  top of the stack, which are the opening and the closing line of the parent when the
  element is its only child. Every sibling with a \<^verbatim>\<open>for\<close> directive cuts the closing
  line of the parent once more.
\<close>

lemma join_space_append:
  "ls \<noteq> [] \<Longrightarrow> ms \<noteq> [] \<Longrightarrow> join_space (ls @ ms) = join_space ls @ '' '' @ join_space ms"
proof (induction ls rule: join_space.induct)
  case 1
  then show ?case by simp
next
  case (2 l)
  then show ?case by (cases ms) simp_all
next
  case (3 l v va)
  then show ?case by simp
qed

lemma separator_before_closing_append:
  "separator_before_closing v \<Longrightarrow> separator_before_closing (u @ v)"
  by (induction u) simp_all

lemma childless_for_element:
  assumes "lines c \<noteq> []" and "stack c = s0 # rest"
    and "directives (splitAttributes h as) ''for'' = Some d"
    and "directives (splitAttributes h as) ''show'' = None"
  shows "\<exists>c'. addNode h (Element t as []) c = Inr c' \<and> lines c' \<noteq> [] \<and>
           stack c' = drop 1 s0 # rest"
proof -
  let ?fd = "formatForDirective h d"
  define tag where "tag = normalizeTagName h t"
  define sp where "sp = splitAttributes h as"
  define props where "props = extractProps h (attrs sp) (bindings sp) (events sp)"
  from assms(2) have ne: "stack c \<noteq> []" by simp
  from openFor_Inr[OF assms(1) ne, of ?fd] assms(2) obtain c1 where
    c1: "openFor ?fd c = Inr c1" "stack c1 = closing ?fd # drop 1 s0 # rest"
    by auto
  let ?o = "openElement tag props c1"
  have os: "stack ?o = '']),'' # closing ?fd # drop 1 s0 # rest" using c1(2) by simp
  have ol: "lines ?o \<noteq> []" by simp
  note p1 = addLineFromStack_Cons[OF os ol]
  from p1(1) have l1: "lines (addLineFromStack ?o) \<noteq> []" by simp
  note p2 = addLineFromStack_Cons[OF p1(2) l1]
  from p2(1) have l2: "lines (addLineFromStack (addLineFromStack ?o)) \<noteq> []" by simp
  have "addNode h (Element t as []) c = Inr (addLineFromStack (addLineFromStack ?o))"
    unfolding addNode_Element using assms(3,4) c1(1)
    by (simp add: Let_def tag_def sp_def props_def numeral_2_eq_2)
  with l2 p2(2) show ?thesis by blast
qed

lemma not_wrapped_in_fragment: "\<not> wrapped_in_fragment (code @ ''),  ) }'')"
proof
  assume "wrapped_in_fragment (code @ ''),  ) }'')"
  then have "drop (length (code @ ''),  ) }'') - 7) (code @ ''),  ) }'') = '' ]) ) }''"
    by (simp add: wrapped_in_fragment_def Let_def)
  then show False by simp
qed

text \<open>
  Whatever the helpers are: when two top-level elements without children carry a
  \<^verbatim>\<open>for\<close> directive and a text follows them, the code ends with the line of the text,
  its comma, an empty line and the closing parenthesis, and it does not end with the
  closing of the fragment.
\<close>

lemma for_siblings_code:
  assumes "parse h (normalize_template t) = [Element t1 as1 [], Element t2 as2 [], TextNode x]"
    and "directives (splitAttributes h as1) ''for'' = Some d1"
    and "directives (splitAttributes h as1) ''show'' = None"
    and "directives (splitAttributes h as2) ''for'' = Some d2"
    and "directives (splitAttributes h as2) ''show'' = None"
    and "trim x \<noteq> []"
  shows "\<exists>imps pre. compile h t =
           Inr (imps, pre @ ''hString('' @ interpolateVariables h (trim x) @ ''),  ) }'') \<and>
         separator_before_closing
           (pre @ ''hString('' @ interpolateVariables h (trim x) @ ''),  ) }'') \<and>
         \<not> wrapped_in_fragment
           (pre @ ''hString('' @ interpolateVariables h (trim x) @ ''),  ) }'')"
proof -
  let ?hs = "''hString('' @ interpolateVariables h (trim x) @ ''),''"
  define c0 where "c0 = reset\<lparr>lines := lines reset @ [''h(Fragment, {}, [''],
      imports_set := insert ''hFragment'' (imports_set reset),
      stack := ''])'' # stack reset\<rparr>"
  have c0: "lines c0 \<noteq> []" "stack c0 = ''])'' # ['')'', ''}'']"
    by (simp_all add: c0_def reset_def)
  from childless_for_element[OF c0 assms(2,3), of t1] obtain c1 where
    c1: "addNode h (Element t1 as1 []) c0 = Inr c1" "lines c1 \<noteq> []"
        "stack c1 = '')'' # ['')'', ''}'']"
    by auto
  from childless_for_element[OF c1(2,3) assms(4,5), of t2] obtain c2 where
    c2: "addNode h (Element t2 as2 []) c1 = Inr c2" "lines c2 \<noteq> []"
        "stack c2 = [] # ['')'', ''}'']"
    by auto
  define c3 where "c3 = addText h x c2"
  from assms(6) c2(3) have c3: "lines c3 = lines c2 @ [?hs]" "stack c3 = [] # ['')'', ''}'']"
    by (simp_all add: c3_def addText_def)
  from c3(1) have ne3: "lines c3 \<noteq> []" by simp
  note p1 = addLineFromStack_Cons[OF c3(2) ne3]
  from p1(1) c3(1) have l1: "lines (addLineFromStack c3) = lines c2 @ [?hs, []]" by simp
  then have ne1: "lines (addLineFromStack c3) \<noteq> []" by simp
  note p2 = addLineFromStack_Cons[OF p1(2) ne1]
  from p2(1) l1 have l2: "lines (addLineFromStack (addLineFromStack c3)) =
      lines c2 @ [?hs, [], '')'']"
    by (simp add: butlast_append)
  then have ne2: "lines (addLineFromStack (addLineFromStack c3)) \<noteq> []" by simp
  note p3 = addLineFromStack_Cons[OF p2(2) ne2]
  let ?c6 = "addLineFromStack (addLineFromStack (addLineFromStack c3))"
  from p3(1) l2 have l3: "lines ?c6 = lines c2 @ [?hs, [], '')'', ''}'']"
    by (simp add: butlast_append)
  have d: "drain c3 = ?c6"
    unfolding drain_funpow c3(2) by (simp add: numeral_3_eq_3 funpow_swap1)
  have run: "addNodes h [Element t1 as1 [], Element t2 as2 [], TextNode x] c0 = Inr c3"
    using c1(1) c2(1) by (simp add: c3_def)
  have "join_space (lines ?c6) = join_space (lines c2) @ '' '' @ join_space [?hs, [], '')'', ''}'']"
    unfolding l3 using c2(2) by (intro join_space_append) simp_all
  also have "\<dots> = (join_space (lines c2) @ '' '') @ ?hs @ ''  ) }''"
    by simp
  finally have code: "join_space (lines ?c6) = (join_space (lines c2) @ '' '') @
      ''hString('' @ interpolateVariables h (trim x) @ ''),  ) }''"
    by simp
  from run d assms(1) have "compile h t = Inr (imports_set ?c6, join_space (lines ?c6))"
    by (simp add: compile_def Let_def c0_def)
  with code have res: "compile h t = Inr (imports_set ?c6, (join_space (lines c2) @ '' '') @
      ''hString('' @ interpolateVariables h (trim x) @ ''),  ) }'')"
    by simp
  have "separator_before_closing '',  ) }''"
    by (simp add: starts_with_closing_def)
  then have "separator_before_closing
      (((join_space (lines c2) @ '' '') @ ''hString('' @ interpolateVariables h (trim x) @ '')'')
         @ '',  ) }'')"
    by (rule separator_before_closing_append)
  then have sep: "separator_before_closing ((join_space (lines c2) @ '' '') @
      ''hString('' @ interpolateVariables h (trim x) @ ''),  ) }'')"
    by simp
  have "\<not> wrapped_in_fragment
      (((join_space (lines c2) @ '' '') @ ''hString('' @ interpolateVariables h (trim x)) @
         ''),  ) }'')"
    by (rule not_wrapped_in_fragment)
  then have "\<not> wrapped_in_fragment ((join_space (lines c2) @ '' '') @
      ''hString('' @ interpolateVariables h (trim x) @ ''),  ) }'')"
    by simp
  with res sep show ?thesis by blast
qed

text \<open>
  Whatever the helpers are: when the two children of an element with a \<^verbatim>\<open>for\<close> and a
  \<^verbatim>\<open>show\<close> directive are elements without children that carry a \<^verbatim>\<open>for\<close>
  directive, the line before \<^verbatim>\<open>: null\<close> is empty.
\<close>

lemma for_children_close_lost:
  assumes "lines c \<noteq> []" and "stack c \<noteq> []"
    and "directives (splitAttributes h as) ''for'' = Some f"
    and "directives (splitAttributes h as) ''show'' = Some s"
    and "directives (splitAttributes h as1) ''for'' = Some d1"
    and "directives (splitAttributes h as1) ''show'' = None"
    and "directives (splitAttributes h as2) ''for'' = Some d2"
    and "directives (splitAttributes h as2) ''show'' = None"
  shows "\<exists>c' pre. addNode h (Element t as [Element t1 as1 [], Element t2 as2 []]) c = Inr c' \<and>
           lines c' = pre @ [[], '': null'', closing (formatForDirective h f)] \<and>
           \<not> closes_element_show_for (closing (formatForDirective h f)) (lines c')"
proof -
  let ?fd = "formatForDirective h f"
  define tag where "tag = normalizeTagName h t"
  define sp where "sp = splitAttributes h as"
  define props where "props = extractProps h (attrs sp) (bindings sp) (events sp)"
  define rest where "rest = '': null'' # closing ?fd # drop 1 (hd (stack c)) # tl (stack c)"
  from openFor_Inr[OF assms(1,2), of ?fd] obtain c1 where
    c1: "openFor ?fd c = Inr c1"
        "stack c1 = closing ?fd # drop 1 (hd (stack c)) # tl (stack c)"
    by blast
  let ?o = "openElement tag props (openShow (addThisContext h s) c1)"
  have ol: "lines ?o \<noteq> []" by simp
  have os: "stack ?o = '']),'' # rest" using c1(2) by (simp add: rest_def)
  from childless_for_element[OF ol os assms(5,6), of t1] obtain ca where
    ca: "addNode h (Element t1 as1 []) ?o = Inr ca" "lines ca \<noteq> []" "stack ca = ''),'' # rest"
    by auto
  from childless_for_element[OF ca(2,3) assms(7,8), of t2] obtain cb where
    cb: "addNode h (Element t2 as2 []) ca = Inr cb" "lines cb \<noteq> []" "stack cb = '','' # rest"
    by auto
  from ca(1) cb(1) have kids:
    "addNodes h [Element t1 as1 [], Element t2 as2 []] ?o = Inr cb"
    by simp
  let ?p1 = "addLineFromStack cb"
  have "\<not> ends_with_comma (last (lines cb)) \<or> \<not> starts_with_closing '',''" by simp
  note p1 = addLineFromStack_plain(1,2)[OF cb(3,2) this]
  from p1(1) have ne1: "lines ?p1 \<noteq> []" by simp
  from p1(2) have p1s: "stack ?p1 = '': null'' # closing ?fd # drop 1 (hd (stack c)) # tl (stack c)"
    by (simp add: rest_def)
  let ?p2 = "addLineFromStack ?p1"
  have "lines ?p2 = cut_comma (lines ?p1) @ ['': null'']"
    by (rule addLineFromStack_closing(1)[OF p1s ne1]) simp
  also have "cut_comma (lines ?p1) = lines cb @ [[]]"
    unfolding p1(1) by (simp add: cut_comma_def slice_end_def)
  finally have p2l: "lines ?p2 = lines cb @ [[], '': null'']" by simp
  have p2s: "stack ?p2 = closing ?fd # drop 1 (hd (stack c)) # tl (stack c)"
    by (rule addLineFromStack_closing(2)[OF p1s ne1]) simp
  from p2l have ne2: "lines ?p2 \<noteq> []" and last2: "last (lines ?p2) = '': null''" by simp_all
  let ?p3 = "addLineFromStack ?p2"
  from last2 have "\<not> ends_with_comma (last (lines ?p2)) \<or> \<not> starts_with_closing (closing ?fd)"
    by simp
  from addLineFromStack_plain(1)[OF p2s ne2 this] p2l
  have p3l: "lines ?p3 = lines cb @ [[], '': null'', closing ?fd]" by simp
  have run: "addNode h (Element t as [Element t1 as1 [], Element t2 as2 []]) c = Inr ?p3"
    unfolding addNode_Element using assms(3,4) c1(1) kids
    by (simp add: Let_def tag_def sp_def props_def numeral_3_eq_3)
  have "\<not> closes_element_show_for (closing ?fd) (lines ?p3)"
    unfolding p3l by (simp add: closes_element_show_for_def)
  with run p3l show ?thesis by blast
qed

subsection \<open>An element with both directives (C6)\<close>

lemma closes_element_show_for_snoc:
  "closes_element_show_for x (pre @ [''])'', '': null'', x])"
  by (simp add: closes_element_show_for_def)

text \<open>
  An element with a \<^verbatim>\<open>for\<close> and a \<^verbatim>\<open>show\<close> directive, none of whose child nodes
  carries a \<^verbatim>\<open>for\<close> directive, is added to a compiler that has lines and a stack (as
  it has throughout \<^verbatim>\<open>compile\<close>). The last line loses its last two characters; then come
  the line of the \<^verbatim>\<open>for\<close> directive, the condition of the \<^verbatim>\<open>show\<close> directive and the
  opening line of the element, in this order; then the lines that the child nodes add,
  the last of them without its comma; and then the closing \<^verbatim>\<open>])\<close> of the element,
  \<^verbatim>\<open>: null\<close> and the closing of the \<^verbatim>\<open>for\<close> directive, in this order. The top of the
  stack has lost its first character, and the rest of the stack is as before.
\<close>

lemma for_show_emission:
  assumes "lines c \<noteq> []" and "stack c \<noteq> []"
    and "directives (splitAttributes h as) ''for'' = Some f"
    and "directives (splitAttributes h as) ''show'' = Some s"
    and "list_all (\<lambda>n. \<not> carries_for h n) ns"
  shows "\<exists>c1 c3 kids c'.
     openFor (formatForDirective h f) c = Inr c1 \<and>
     addNodes h ns
       (openElement (normalizeTagName h t)
          (extractProps h (attrs (splitAttributes h as)) (bindings (splitAttributes h as))
             (events (splitAttributes h as)))
          (openShow (addThisContext h s) c1)) = Inr c3 \<and>
     lines c3 =
       butlast (lines c) @
         [slice_end 2 (last (lines c)), line (formatForDirective h f),
          addThisContext h s @ '' ?'',
          ''h('' @ normalizeTagName h t @ '', '' @
             extractProps h (attrs (splitAttributes h as)) (bindings (splitAttributes h as))
               (events (splitAttributes h as)) @ '', [''] @ kids \<and>
     addNode h (Element t as ns) c = Inr c' \<and>
     lines c' =
       butlast (lines c) @
         [slice_end 2 (last (lines c)), line (formatForDirective h f),
          addThisContext h s @ '' ?'',
          ''h('' @ normalizeTagName h t @ '', '' @
             extractProps h (attrs (splitAttributes h as)) (bindings (splitAttributes h as))
               (events (splitAttributes h as)) @ '', [''] @
         cut_comma kids @ [''])'', '': null'', closing (formatForDirective h f)] \<and>
     closes_element_show_for (closing (formatForDirective h f)) (lines c') \<and>
     stack c' = drop 1 (hd (stack c)) # tl (stack c)"
proof -
  let ?fd = "formatForDirective h f"
  define tag where "tag = normalizeTagName h t"
  define sp where "sp = splitAttributes h as"
  define props where "props = extractProps h (attrs sp) (bindings sp) (events sp)"
  define hl where "hl = ''h('' @ tag @ '', '' @ props @ '', [''"
  define pre where "pre = butlast (lines c) @
      [slice_end 2 (last (lines c)), line ?fd, addThisContext h s @ '' ?'']"
  have hlc: "\<not> ends_with_comma hl" unfolding hl_def by (simp add: ends_with_comma_def)
  from openFor_Inr[OF assms(1,2), of ?fd] obtain c1 where
    c1: "openFor ?fd c = Inr c1"
        "lines c1 = butlast (lines c) @ [slice_end 2 (last (lines c)), line ?fd]"
        "stack c1 = closing ?fd # drop 1 (hd (stack c)) # tl (stack c)"
    by blast
  let ?o = "openElement tag props (openShow (addThisContext h s) c1)"
  have ol: "lines ?o = pre @ [hl]"
    using c1(2) by (simp add: pre_def hl_def)
  have os: "stack ?o = '']),'' # '': null'' # closing ?fd # drop 1 (hd (stack c)) # tl (stack c)"
    using c1(3) by simp
  have "lines ?o \<noteq> []" "stack ?o \<noteq> []" by simp_all
  from addNodes_appends[OF assms(5) this] obtain c3 kids where
    c3: "addNodes h ns ?o = Inr c3" and l3: "lines c3 = lines ?o @ kids"
    and s3: "stack c3 = stack ?o"
    by blast
  from l3 ol have l3': "lines c3 = pre @ hl # kids" by simp
  then have ne3: "lines c3 \<noteq> []" by simp
  from s3 os have s3': "stack c3 =
      '']),'' # '': null'' # closing ?fd # drop 1 (hd (stack c)) # tl (stack c)"
    by simp
  let ?p1 = "addLineFromStack c3"
  have "lines ?p1 = cut_comma (lines c3) @ ['']),'']"
    by (rule addLineFromStack_closing(1)[OF s3' ne3]) simp
  also have "cut_comma (lines c3) = pre @ hl # cut_comma kids"
    unfolding l3' using hlc by (rule cut_comma_after)
  finally have p1l: "lines ?p1 = (pre @ hl # cut_comma kids) @ ['']),'']" .
  have p1s: "stack ?p1 = '': null'' # closing ?fd # drop 1 (hd (stack c)) # tl (stack c)"
    by (rule addLineFromStack_closing(2)[OF s3' ne3]) simp
  from p1l have ne1: "lines ?p1 \<noteq> []" by simp
  let ?p2 = "addLineFromStack ?p1"
  have "lines ?p2 = cut_comma (lines ?p1) @ ['': null'']"
    by (rule addLineFromStack_closing(1)[OF p1s ne1]) simp
  also have "cut_comma (lines ?p1) = (pre @ hl # cut_comma kids) @ [''])'']"
    unfolding p1l by (rule cut_comma_closer)
  finally have p2l: "lines ?p2 = (pre @ hl # cut_comma kids) @ [''])'', '': null'']"
    by simp
  have p2s: "stack ?p2 = closing ?fd # drop 1 (hd (stack c)) # tl (stack c)"
    by (rule addLineFromStack_closing(2)[OF p1s ne1]) simp
  from p2l have ne2: "lines ?p2 \<noteq> []" and last2: "last (lines ?p2) = '': null''"
    by simp_all
  let ?p3 = "addLineFromStack ?p2"
  from last2 have "\<not> ends_with_comma (last (lines ?p2)) \<or> \<not> starts_with_closing (closing ?fd)"
    by simp
  note p3 = addLineFromStack_plain(1,2)[OF p2s ne2 this]
  from p3(1) p2l have p3l: "lines ?p3 =
      (pre @ hl # cut_comma kids) @ [''])'', '': null'', closing ?fd]"
    by simp
  have run: "addNode h (Element t as ns) c = Inr ?p3"
    unfolding addNode_Element using assms(3,4) c1(1) c3
    by (simp add: Let_def tag_def sp_def props_def numeral_3_eq_3)
  have cl: "closes_element_show_for (closing ?fd) (lines ?p3)"
    unfolding p3l by (rule closes_element_show_for_snoc)
  note c3u = c3[unfolded tag_def props_def sp_def]
  have A: "lines c3 =
       butlast (lines c) @
         [slice_end 2 (last (lines c)), line (formatForDirective h f),
          addThisContext h s @ '' ?'',
          ''h('' @ normalizeTagName h t @ '', '' @
             extractProps h (attrs (splitAttributes h as)) (bindings (splitAttributes h as))
               (events (splitAttributes h as)) @ '', [''] @ kids"
    using l3' unfolding pre_def hl_def tag_def props_def sp_def by simp
  have B: "lines ?p3 =
       butlast (lines c) @
         [slice_end 2 (last (lines c)), line (formatForDirective h f),
          addThisContext h s @ '' ?'',
          ''h('' @ normalizeTagName h t @ '', '' @
             extractProps h (attrs (splitAttributes h as)) (bindings (splitAttributes h as))
               (events (splitAttributes h as)) @ '', [''] @
         cut_comma kids @ [''])'', '': null'', closing (formatForDirective h f)]"
    using p3l unfolding pre_def hl_def tag_def props_def sp_def by simp
  show ?thesis
    by (intro exI[of _ c1] exI[of _ c3] exI[of _ kids] exI[of _ ?p3] conjI)
      (rule c1(1), rule c3u, rule A, rule run, rule B, rule cl, rule p3(2))
qed

text \<open>
  The element of the example template \<^verbatim>\<open>template_item\<close>, whose only child is a text.
\<close>

lemma for_show_emission_example:
  "addNode example_helpers
     (Element ''li'' [(''for'', ''a in as''), (''show'', ''ok'')] [TextNode ''x'']) reset =
     Inr \<lparr>lines = [''function render() {'', ''return'', ''each(a in as) =>'', ''this.ok ?'',
                   ''h(li, {}, ['', ''hString(x)'', ''])'', '': null'', '')''],
          stack = ['''', ''}''], imports_set = {''h'', ''hString''}\<rparr> \<and>
   closes_element_show_for '')''
     [''function render() {'', ''return'', ''each(a in as) =>'', ''this.ok ?'',
      ''h(li, {}, ['', ''hString(x)'', ''])'', '': null'', '')'']"
proof
  show "addNode example_helpers
     (Element ''li'' [(''for'', ''a in as''), (''show'', ''ok'')] [TextNode ''x'']) reset =
     Inr \<lparr>lines = [''function render() {'', ''return'', ''each(a in as) =>'', ''this.ok ?'',
                   ''h(li, {}, ['', ''hString(x)'', ''])'', '': null'', '')''],
          stack = ['''', ''}''], imports_set = {''h'', ''hString''}\<rparr>"
    by code_simp
  show "closes_element_show_for '')''
     [''function render() {'', ''return'', ''each(a in as) =>'', ''this.ok ?'',
      ''h(li, {}, ['', ''hString(x)'', ''])'', '': null'', '')'']"
    by code_simp
qed

text \<open>
  C6. For an element with a \<^verbatim>\<open>for\<close> and a \<^verbatim>\<open>show\<close> directive two of whose child
  elements carry a \<^verbatim>\<open>for\<close> directive, as in
  \<^verbatim>\<open><ul for="a in as" show="ok"><li for="b in bs"></li><li for="c in cs"></li></ul>\<close>,
  the closing of the list of children is not emitted before the closing of the
  \<^verbatim>\<open>show\<close> and of the \<^verbatim>\<open>for\<close> directive. Each of the two children cuts the first
  character of the closing line \<^verbatim>\<open>]),\<close> that the element has put on the stack, and
  the comma that is left is removed before \<^verbatim>\<open>: null\<close> is appended: the line emitted
  after the children, where the list of children and the call of the element are to be
  closed, is empty. It is followed by \<^verbatim>\<open>: null\<close> and the closing of the \<^verbatim>\<open>for\<close>
  directive, so that the code returned by \<^verbatim>\<open>compile\<close> opens the call \<^verbatim>\<open>h(ul\<close> and
  never closes it. (Lemma \<open>for_children_close_lost\<close> shows the empty line for any
  helpers; here are the example helpers.)
\<close>

theorem C6_children_close_lost:
  "addNode example_helpers
     (Element ''ul'' [(''for'', ''a in as''), (''show'', ''ok'')]
        [Element ''li'' [(''for'', ''b in bs'')] [],
         Element ''li'' [(''for'', ''c in cs'')] []]) reset =
     Inr \<lparr>lines = [''function render() {'', ''return'', ''each(a in as) =>'', ''this.ok ?'',
                   ''h(ul, {},'', ''each(b in bs) =>'', ''h(li, {}, ['', ''])'', '''',
                   ''each(c in cs) =>'', ''h(li, {}, ['', ''])'', '')'', '''', '': null'', '')''],
          stack = ['''', ''}''], imports_set = {''h''}\<rparr> \<and>
   \<not> closes_element_show_for '')''
     [''function render() {'', ''return'', ''each(a in as) =>'', ''this.ok ?'',
      ''h(ul, {},'', ''each(b in bs) =>'', ''h(li, {}, ['', ''])'', '''',
      ''each(c in cs) =>'', ''h(li, {}, ['', ''])'', '')'', '''', '': null'', '')''] \<and>
   compile example_helpers template_nested =
     Inr ({''h''},
       ''function render() { return each(a in as) => this.ok ? h(ul, {}, each(b in bs) => h(li, {}, [ ])  each(c in cs) => h(li, {}, [ ]) )  : null )  }'')"
proof (intro conjI)
  show "addNode example_helpers
     (Element ''ul'' [(''for'', ''a in as''), (''show'', ''ok'')]
        [Element ''li'' [(''for'', ''b in bs'')] [],
         Element ''li'' [(''for'', ''c in cs'')] []]) reset =
     Inr \<lparr>lines = [''function render() {'', ''return'', ''each(a in as) =>'', ''this.ok ?'',
                   ''h(ul, {},'', ''each(b in bs) =>'', ''h(li, {}, ['', ''])'', '''',
                   ''each(c in cs) =>'', ''h(li, {}, ['', ''])'', '')'', '''', '': null'', '')''],
          stack = ['''', ''}''], imports_set = {''h''}\<rparr>"
    by code_simp
  show "\<not> closes_element_show_for '')''
     [''function render() {'', ''return'', ''each(a in as) =>'', ''this.ok ?'',
      ''h(ul, {},'', ''each(b in bs) =>'', ''h(li, {}, ['', ''])'', '''',
      ''each(c in cs) =>'', ''h(li, {}, ['', ''])'', '')'', '''', '': null'', '')'']"
    by code_simp
  show "compile example_helpers template_nested =
     Inr ({''h''},
       ''function render() { return each(a in as) => this.ok ? h(ul, {}, each(b in bs) => h(li, {}, [ ])  each(c in cs) => h(li, {}, [ ]) )  : null )  }'')"
    by code_simp
qed

subsection \<open>The fragment around several top-level nodes (C8)\<close>

lemma drain_imports: "lines c \<noteq> [] \<Longrightarrow> imports_set (drain c) = imports_set c"
  unfolding drain_funpow using pops[of c "stack c" "[]"] by auto

lemma compile_alt:
  "compile h t =
     (case addNodes h (parse h (normalize_template t))
             (initial_compiler (parse h (normalize_template t))) of
        Inl e \<Rightarrow> Inl e
      | Inr c2 \<Rightarrow> Inr (imports_set (drain c2), join_space (lines (drain c2))))"
  by (simp add: compile_def initial_compiler_def Let_def split: sum.splits)

lemma initial_compiler_nonempty:
  "lines (initial_compiler ns) \<noteq> []" "stack (initial_compiler ns) \<noteq> []"
  by (simp_all add: initial_compiler_def reset_def)

text \<open>\<^verbatim>\<open>compile\<close> never throws: the lines and the stack are never empty when a node is added.\<close>

lemma compile_returns: "\<exists>imps code. compile h t = Inr (imps, code)"
proof -
  from addNodes_grows[OF initial_compiler_nonempty[of "parse h (normalize_template t)"],
      of h "parse h (normalize_template t)"]
  obtain c2 where
    "addNodes h (parse h (normalize_template t))
       (initial_compiler (parse h (normalize_template t))) = Inr c2"
    by blast
  then show ?thesis by (simp add: compile_alt)
qed

text \<open>
  One top-level node: the result is what that node alone makes of the compiler after
  \<^verbatim>\<open>#reset\<close>, its lines and the closing lines of the function, and \<^verbatim>\<open>hFragment\<close> is
  not among the imports.
\<close>

lemma compile_one:
  assumes "parse h (normalize_template t) = [n]"
  shows "\<exists>c'. addNode h n reset = Inr c' \<and>
           compile h t = Inr (imports_set c', join_space (lines (drain c'))) \<and>
           ''hFragment'' \<notin> imports_set c'"
proof -
  have r: "lines reset \<noteq> []" "stack reset \<noteq> []" "imports_set reset = {}"
    by (simp_all add: reset_def)
  from addNode_grows[OF r(1,2), of h n] obtain c' where
    c': "addNode h n reset = Inr c'" and g: "grows reset c'"
    by blast
  from g r(3) have imp: "imports_set c' \<subseteq> {''h'', ''hString''}"
    unfolding grows_def by simp
  then have nf: "''hFragment'' \<notin> imports_set c'" by auto
  from grows_nonempty(1)[OF g] have "imports_set (drain c') = imports_set c'"
    by (rule drain_imports)
  with assms c' have "compile h t = Inr (imports_set c', join_space (lines (drain c')))"
    by (simp add: compile_alt initial_compiler_def)
  with c' nf show ?thesis by blast
qed

text \<open>More than one top-level node: \<^verbatim>\<open>hFragment\<close> is among the imports.\<close>

lemma fragment_imported:
  assumes "1 < length (parse h (normalize_template t))"
  shows "\<exists>imps code. compile h t = Inr (imps, code) \<and> ''hFragment'' \<in> imps"
proof -
  let ?ns = "parse h (normalize_template t)"
  from assms have "''hFragment'' \<in> imports_set (initial_compiler ?ns)"
    by (simp add: initial_compiler_def)
  moreover from addNodes_grows[OF initial_compiler_nonempty[of ?ns], of h ?ns] obtain c2 where
    c2: "addNodes h ?ns (initial_compiler ?ns) = Inr c2" and g: "grows (initial_compiler ?ns) c2"
    by blast
  ultimately have "''hFragment'' \<in> imports_set c2" unfolding grows_def by blast
  moreover from grows_nonempty(1)[OF g] have "imports_set (drain c2) = imports_set c2"
    by (rule drain_imports)
  ultimately show ?thesis using c2 by (simp add: compile_alt)
qed

lemma wrapped_in_fragmentI:
  "wrapped_in_fragment
     (''function render() { return ( h(Fragment, {}, ['' @ body @ '' ]) ) }'')"
proof -
  define a where "a = ''function render() { return ( h(Fragment, {}, [''"
  define b where "b = '' ]) ) }''"
  have "length a + length b \<le> length (a @ body @ b) \<and>
      take (length a) (a @ body @ b) = a \<and>
      drop (length (a @ body @ b) - length b) (a @ body @ b) = b"
    by simp
  then show ?thesis
    unfolding wrapped_in_fragment_def Let_def a_def b_def by simp
qed

text \<open>
  More than one top-level node, none of which carries a \<^verbatim>\<open>for\<close> directive: the lines of
  the nodes come after the opening line of the fragment, and the code returned is the
  opening of the function and of the call of the fragment, the lines of the nodes, the
  last of them without its comma, and the closing of the list, of the call and of the
  function.
\<close>

lemma fragment_wrapper_emitted:
  assumes "1 < length (parse h (normalize_template t))"
    and "list_all (\<lambda>n. \<not> carries_for h n) (parse h (normalize_template t))"
  shows "\<exists>c2 kids imps.
     addNodes h (parse h (normalize_template t))
       (initial_compiler (parse h (normalize_template t))) = Inr c2 \<and>
     lines c2 = [''function render() {'', ''return ('', ''h(Fragment, {}, [''] @ kids \<and>
     compile h t =
       Inr (imps,
         ''function render() { return ( h(Fragment, {}, ['' @
           concat (map ((@) '' '') (cut_comma kids)) @ '' ]) ) }'') \<and>
     ''hFragment'' \<in> imps"
proof -
  let ?ns = "parse h (normalize_template t)"
  let ?c1 = "initial_compiler ?ns"
  let ?fo = "''h(Fragment, {}, [''"
  from assms(1) have c1l: "lines ?c1 = [''function render() {'', ''return (''] @ [?fo]"
    and c1s: "stack ?c1 = [''])'', '')'', ''}'']"
    and c1i: "''hFragment'' \<in> imports_set ?c1"
    by (simp_all add: initial_compiler_def reset_def)
  from addNodes_appends[OF assms(2) initial_compiler_nonempty[of ?ns]] obtain c2 kids where
    c2: "addNodes h ?ns ?c1 = Inr c2" and l2: "lines c2 = lines ?c1 @ kids"
    and s2: "stack c2 = stack ?c1"
    by blast
  from addNodes_grows[OF initial_compiler_nonempty[of ?ns], of h ?ns] c2 have "grows ?c1 c2"
    by auto
  with c1i have i2: "''hFragment'' \<in> imports_set c2" unfolding grows_def by blast
  from l2 c1l have l2': "lines c2 = [''function render() {'', ''return (''] @ ?fo # kids"
    by simp
  then have ne2: "lines c2 \<noteq> []" by simp
  from s2 c1s have s2': "stack c2 = ''])'' # ['')'', ''}'']" by simp
  have fo: "\<not> ends_with_comma ?fo" by (simp add: ends_with_comma_def)
  let ?p1 = "addLineFromStack c2"
  have "lines ?p1 = cut_comma (lines c2) @ [''])'']"
    by (rule addLineFromStack_closing(1)[OF s2' ne2]) simp
  also have "cut_comma (lines c2) =
      [''function render() {'', ''return (''] @ ?fo # cut_comma kids"
    unfolding l2' using fo by (rule cut_comma_after)
  finally have p1l: "lines ?p1 =
      ([''function render() {'', ''return (''] @ ?fo # cut_comma kids) @ [''])'']" .
  have p1s: "stack ?p1 = '')'' # [''}'']"
    by (rule addLineFromStack_closing(2)[OF s2' ne2]) simp
  have p1i: "imports_set ?p1 = imports_set c2"
    by (rule addLineFromStack_closing(3)[OF s2' ne2]) simp
  from p1l have ne1: "lines ?p1 \<noteq> []" and last1: "last (lines ?p1) = ''])''" by simp_all
  let ?p2 = "addLineFromStack ?p1"
  from last1 have "\<not> ends_with_comma (last (lines ?p1)) \<or> \<not> starts_with_closing '')''"
    by simp
  note p2 = addLineFromStack_plain[OF p1s ne1 this]
  from p2(1) p1l have p2l: "lines ?p2 =
      ([''function render() {'', ''return (''] @ ?fo # cut_comma kids) @ [''])'', '')'']"
    by simp
  then have ne2': "lines ?p2 \<noteq> []" by simp
  let ?p3 = "addLineFromStack ?p2"
  have "\<not> ends_with_comma (last (lines ?p2)) \<or> \<not> starts_with_closing ''}''" by simp
  note p3 = addLineFromStack_plain[OF p2(2) ne2' this]
  from p3(1) p2l have p3l: "lines ?p3 =
      ''function render() {'' # (''return ('' # ?fo # cut_comma kids @ [''])'', '')'', ''}''])"
    by simp
  have d: "drain c2 = ?p3"
    unfolding drain_funpow s2' by (simp add: numeral_3_eq_3 funpow_swap1)
  have code: "join_space (lines ?p3) =
      ''function render() { return ( h(Fragment, {}, ['' @
        concat (map ((@) '' '') (cut_comma kids)) @ '' ]) ) }''"
    unfolding p3l join_space_Cons by simp
  from c2 d have "compile h t = Inr (imports_set ?p3, join_space (lines ?p3))"
    by (simp add: compile_alt)
  with code have res: "compile h t =
      Inr (imports_set ?p3,
        ''function render() { return ( h(Fragment, {}, ['' @
           concat (map ((@) '' '') (cut_comma kids)) @ '' ]) ) }'')"
    by simp
  from p3(3) p2(3) p1i i2 have "''hFragment'' \<in> imports_set ?p3" by simp
  with c2 l2' res show ?thesis by auto
qed

lemma fragment_wrapper_wrapped:
  assumes "1 < length (parse h (normalize_template t))"
    and "list_all (\<lambda>n. \<not> carries_for h n) (parse h (normalize_template t))"
  shows "\<exists>imps code. compile h t = Inr (imps, code) \<and> wrapped_in_fragment code \<and>
           ''hFragment'' \<in> imps"
  using fragment_wrapper_emitted[OF assms] wrapped_in_fragmentI by blast

text \<open>The example template \<^verbatim>\<open><p>x</p><p>y</p>\<close>: two nodes, in one call of the fragment.\<close>

lemma fragment_wrapper_example:
  "compile example_helpers template_two =
     Inr ({''h'', ''hString'', ''hFragment''},
       ''function render() { return ( h(Fragment, {}, [ h(p, {}, [ hString(x) ]), h(p, {}, [ hString(y) ]) ]) ) }'') \<and>
   wrapped_in_fragment
     ''function render() { return ( h(Fragment, {}, [ h(p, {}, [ hString(x) ]), h(p, {}, [ hString(y) ]) ]) ) }''"
proof
  show "compile example_helpers template_two =
     Inr ({''h'', ''hString'', ''hFragment''},
       ''function render() { return ( h(Fragment, {}, [ h(p, {}, [ hString(x) ]), h(p, {}, [ hString(y) ]) ]) ) }'')"
    by (rule example_compile_two)
  show "wrapped_in_fragment
     ''function render() { return ( h(Fragment, {}, [ h(p, {}, [ hString(x) ]), h(p, {}, [ hString(y) ]) ]) ) }''"
    by code_simp
qed

text \<open>
  C8. For a template with more than one top-level node in which two top-level elements
  carry a \<^verbatim>\<open>for\<close> directive, as in
  \<^verbatim>\<open><li for="a in as"></li><li for="b in bs"></li>x\<close>, which parses into three nodes,
  the nodes are not wrapped in one call of the fragment primitive. The first element
  cuts the bracket off the opening line of the fragment and the first character off its
  closing line \<^verbatim>\<open>])\<close> on the stack, and the second element cuts the character that is
  left: the code returned begins with the call of the fragment primitive, but the list
  of children is never opened, the line emitted for the closing of the fragment is
  empty, and the text, with its comma, comes after the closing parenthesis of the second
  element. \<^verbatim>\<open>hFragment\<close> is among the imports. (Lemma \<open>for_siblings_code\<close> shows for
  any helpers that the code does not end with the closing of the fragment; here are the
  example helpers.)
\<close>

theorem C8_fragment_not_closed:
  "length (parse example_helpers (normalize_template template_lists)) = 3 \<and>
   compile example_helpers template_lists =
     Inr ({''h'', ''hString'', ''hFragment''},
       ''function render() { return ( h(Fragment, {}, each(a in as) => h(li, {}, [ ])  each(b in bs) => h(li, {}, [ ]) ) hString(x),  ) }'') \<and>
   \<not> wrapped_in_fragment
     ''function render() { return ( h(Fragment, {}, each(a in as) => h(li, {}, [ ])  each(b in bs) => h(li, {}, [ ]) ) hString(x),  ) }''"
proof (intro conjI)
  show "length (parse example_helpers (normalize_template template_lists)) = 3"
    by code_simp
  show "compile example_helpers template_lists =
     Inr ({''h'', ''hString'', ''hFragment''},
       ''function render() { return ( h(Fragment, {}, each(a in as) => h(li, {}, [ ])  each(b in bs) => h(li, {}, [ ]) ) hString(x),  ) }'')"
    by code_simp
  show "\<not> wrapped_in_fragment
     ''function render() { return ( h(Fragment, {}, each(a in as) => h(li, {}, [ ])  each(b in bs) => h(li, {}, [ ]) ) hString(x),  ) }''"
    by code_simp
qed

subsection \<open>Templates without a \<^verbatim>\<open>for\<close> directive\<close>

lemma tidy_snoc:
  "tidy (ls @ [b]) \<longleftrightarrow>
     tidy ls \<and> (ls \<noteq> [] \<longrightarrow> \<not> (ends_with_comma (last ls) \<and> starts_with_closing b))"
  by (induction ls rule: tidy.induct) auto

lemma starts_with_closing_take:
  "starts_with_closing (take n s) \<Longrightarrow> starts_with_closing s"
proof (induction s arbitrary: n)
  case Nil
  then show ?case by simp
next
  case (Cons x xs)
  show ?case
  proof (cases n)
    case 0
    with Cons.prems show ?thesis by (simp add: starts_with_closing_def)
  next
    case (Suc m)
    show ?thesis
    proof (cases "is_space x")
      case True
      with Cons.prems Suc have "starts_with_closing (take m xs)"
        by (simp add: starts_with_closing_def)
      from Cons.IH[OF this] True show ?thesis by (simp add: starts_with_closing_def)
    next
      case False
      with Cons.prems Suc show ?thesis by (simp add: starts_with_closing_def)
    qed
  qed
qed

lemma tidy_cut_last:
  assumes "tidy (pre @ [a])"
  shows "tidy (pre @ [slice_end n a])"
  using assms starts_with_closing_take[of "length a - n" a]
  unfolding tidy_snoc slice_end_def by blast

lemma firm_closers [simp]:
  "firm '']),''" "firm '': null''" "firm ''])''"
  "firm '')''" "firm ''}''"
  by (simp_all add: firm_def blank_def slice_end_def ends_with_comma_def)

lemma kept_tidy_pop:
  assumes "kept_tidy c" and "stack c = x # rest"
  shows "kept_tidy (addLineFromStack c)" and "stack (addLineFromStack c) = rest"
proof -
  from assms(1) have t: "tidy (lines c)" and ne: "lines c \<noteq> []"
    and s: "firm (last (lines c))" and st: "list_all firm (stack c)"
    and nb: "list_all (\<lambda>l. \<not> blank l) (lines c)"
    unfolding kept_tidy_def by simp_all
  from ne nb have nb': "list_all (\<lambda>l. \<not> blank l) (butlast (lines c))"
    "\<not> blank (last (lines c))"
    by (simp_all add: list_all_iff in_set_butlastD)
  from st assms(2) have fx: "firm x" by simp
  note step = addLineFromStack_Cons[OF assms(2) ne]
  from step(2) show "stack (addLineFromStack c) = rest" .
  from ne t have t': "tidy (butlast (lines c) @ [last (lines c)])" by simp
  have "tidy (lines (addLineFromStack c))"
  proof (cases "ends_with_comma (last (lines c)) \<and> starts_with_closing x")
    case True
    with s have "\<not> ends_with_comma (slice_end 1 (last (lines c)))"
      by (simp add: firm_def)
    moreover from tidy_cut_last[OF t', of 1]
    have "tidy (butlast (lines c) @ [slice_end 1 (last (lines c))])" .
    ultimately have "tidy ((butlast (lines c) @ [slice_end 1 (last (lines c))]) @ [x])"
      unfolding tidy_snoc[of "butlast (lines c) @ [slice_end 1 (last (lines c))]" x] by simp
    with True step(1) show ?thesis by simp
  next
    case False
    with t ne have "tidy (lines c @ [x])" unfolding tidy_snoc by simp
    moreover from False have "(if ends_with_comma (last (lines c)) \<and> starts_with_closing x
        then slice_end 1 (last (lines c)) else last (lines c)) = last (lines c)"
      by (rule if_not_P)
    with step(1) ne have "lines (addLineFromStack c) = lines c @ [x]" by simp
    ultimately show ?thesis by simp
  qed
  moreover from step(1) have "lines (addLineFromStack c) \<noteq> []"
    "last (lines (addLineFromStack c)) = x"
    by simp_all
  moreover from st assms(2) step(2) have "list_all firm (stack (addLineFromStack c))"
    by simp
  moreover have "list_all (\<lambda>l. \<not> blank l) (lines (addLineFromStack c))"
  proof (cases "ends_with_comma (last (lines c)) \<and> starts_with_closing x")
    case True
    with s have "\<not> blank (slice_end 1 (last (lines c)))" by (simp add: firm_def)
    with True step(1) nb'(1) fx show ?thesis by (simp add: firm_def)
  next
    case False
    then have "(if ends_with_comma (last (lines c)) \<and> starts_with_closing x
        then slice_end 1 (last (lines c)) else last (lines c)) = last (lines c)"
      by (rule if_not_P)
    with step(1) nb' fx show ?thesis by (simp add: firm_def)
  qed
  ultimately show "kept_tidy (addLineFromStack c)" using fx unfolding kept_tidy_def by simp
qed

lemma kept_tidy_push:
  assumes "kept_tidy c" and "\<not> starts_with_closing b" and "firm b"
    and "lines c' = lines c @ [b]" and "list_all firm (stack c')"
  shows "kept_tidy c'"
proof -
  from assms(1,2) have "tidy (lines c @ [b])" by (simp add: kept_tidy_def tidy_snoc)
  with assms(1,3,4,5) show ?thesis by (simp add: kept_tidy_def firm_def)
qed

lemma kept_tidy_openElement:
  assumes "kept_tidy c"
  shows "kept_tidy (openElement tag props c)"
proof (rule kept_tidy_push[OF assms])
  let ?l = "''h('' @ tag @ '', '' @ props @ '', [''"
  show "\<not> starts_with_closing ?l" by (simp add: starts_with_closing_def is_space_def)
  have "\<not> ends_with_comma ?l" by (simp add: ends_with_comma_def)
  then show "firm ?l" by (simp add: firm_def blank_def is_space_def)
  show "lines (openElement tag props c) = lines c @ [?l]" by simp
  from assms show "list_all firm (stack (openElement tag props c))"
    by (simp add: kept_tidy_def)
qed

lemma kept_tidy_openShow:
  assumes "kept_tidy c" and "\<not> starts_with_closing (s @ '' ?'')"
  shows "kept_tidy (openShow s c)"
proof (rule kept_tidy_push[OF assms(1)])
  show "\<not> starts_with_closing (s @ '' ?'')" by (rule assms(2))
  have "\<not> ends_with_comma (s @ '' ?'')" by (simp add: ends_with_comma_def)
  then show "firm (s @ '' ?'')" by (simp add: firm_def blank_def)
  show "lines (openShow s c) = lines c @ [s @ '' ?'']" by simp
  from assms(1) show "list_all firm (stack (openShow s c))"
    by (simp add: kept_tidy_def)
qed

lemma kept_tidy_addText:
  assumes "kept_tidy c"
  shows "kept_tidy (addText h t c)" and "stack (addText h t c) = stack c"
proof -
  show "stack (addText h t c) = stack c" by (simp add: addText_def Let_def)
  show "kept_tidy (addText h t c)"
  proof (cases "trim t = []")
    case True
    with assms show ?thesis by (simp add: addText_def)
  next
    case False
    let ?l = "''hString('' @ interpolateVariables h (trim t) @ ''),''"
    show ?thesis
    proof (rule kept_tidy_push[OF assms])
      show "\<not> starts_with_closing ?l" by (simp add: starts_with_closing_def is_space_def)
      have "slice_end 1 ?l = ''hString('' @ interpolateVariables h (trim t) @ '')''"
        by (simp add: slice_end_def)
      moreover have "\<not> ends_with_comma (''hString('' @ interpolateVariables h (trim t) @ '')'')"
        by (simp add: ends_with_comma_def)
      ultimately show "firm ?l" by (simp add: firm_def blank_def is_space_def)
      from False show "lines (addText h t c) = lines c @ [?l]" by (simp add: addText_def)
      from assms False show "list_all firm (stack (addText h t c))"
        by (simp add: addText_def kept_tidy_def)
    qed
  qed
qed

lemma addNodes_tidy_if:
  assumes "\<And>n c. n \<in> set ns \<Longrightarrow> kept_tidy c \<Longrightarrow>
             \<exists>c'. addNode h n c = Inr c' \<and> kept_tidy c' \<and> stack c' = stack c"
    and "kept_tidy c"
  shows "\<exists>c'. addNodes h ns c = Inr c' \<and> kept_tidy c' \<and> stack c' = stack c"
  using assms
proof (induction ns arbitrary: c)
  case Nil
  then show ?case by simp
next
  case (Cons n ns)
  from Cons.prems(1)[of n c] Cons.prems(2)
  obtain c1 where c1: "addNode h n c = Inr c1" "kept_tidy c1" "stack c1 = stack c" by auto
  from Cons.IH[of c1] Cons.prems(1) c1(2)
  obtain c2 where c2: "addNodes h ns c1 = Inr c2" "kept_tidy c2" "stack c2 = stack c1" by auto
  from c1 c2 have "addNodes h (n # ns) c = Inr c2" "stack c2 = stack c" by simp_all
  with c2(2) show ?case by blast
qed

lemma addNode_tidy:
  assumes "\<And>s. \<not> starts_with_closing (addThisContext h s @ '' ?'')"
    and "for_free h n" and "kept_tidy c"
  shows "\<exists>c'. addNode h n c = Inr c' \<and> kept_tidy c' \<and> stack c' = stack c"
  using assms(2,3)
proof (induction n arbitrary: c)
  case (Element t as ns)
  from Element.prems(1) have nofor: "directives (splitAttributes h as) ''for'' = None"
    and free: "\<forall>k\<in>set ns. for_free h k"
    by (simp_all add: list_all_iff)
  have kids: "\<exists>c'. addNodes h ns c = Inr c' \<and> kept_tidy c' \<and> stack c' = stack c"
    if "kept_tidy c" for c
    using Element.IH free that by (intro addNodes_tidy_if) auto
  define tag where "tag = normalizeTagName h t"
  define sp where "sp = splitAttributes h as"
  define props where "props = extractProps h (attrs sp) (bindings sp) (events sp)"
  show ?case
  proof (cases "directives sp ''show''")
    case None
    let ?o = "openElement tag props c"
    from kids[OF kept_tidy_openElement[OF Element.prems(2)], of tag props]
    obtain c3 where c3: "addNodes h ns ?o = Inr c3" "kept_tidy c3" "stack c3 = '']),'' # stack c"
      by auto
    from kept_tidy_pop[OF c3(2,3)] c3(1) nofor None show ?thesis
      unfolding addNode_Element by (simp add: Let_def sp_def tag_def props_def)
  next
    case (Some s)
    let ?c2 = "openShow (addThisContext h s) c"
    let ?o = "openElement tag props ?c2"
    from kept_tidy_openShow[OF Element.prems(2) assms(1)[of s]]
    have "kept_tidy ?c2" .
    from kids[OF kept_tidy_openElement[OF this], of tag props]
    obtain c3 where c3: "addNodes h ns ?o = Inr c3" "kept_tidy c3"
      "stack c3 = '']),'' # '': null'' # stack c"
      by auto
    note p1 = kept_tidy_pop[OF c3(2,3)]
    note p2 = kept_tidy_pop[OF p1]
    from p2 c3(1) nofor Some show ?thesis
      unfolding addNode_Element
      by (simp add: Let_def sp_def tag_def props_def numeral_2_eq_2)
  qed
next
  case (TextNode t)
  then show ?case by (simp add: kept_tidy_addText)
next
  case OtherNode
  then show ?case by simp
qed

lemma kept_tidy_drain: "kept_tidy c \<Longrightarrow> kept_tidy (drain c)"
proof (induction c rule: drain.induct)
  case (1 c)
  show ?case
  proof (cases "stack c")
    case Nil
    with 1 show ?thesis by (subst drain.simps) simp
  next
    case (Cons x rest)
    from kept_tidy_pop(1)[OF "1.prems" Cons] have "kept_tidy (addLineFromStack c)" .
    with 1 Cons show ?thesis by (subst drain.simps) simp
  qed
qed

text \<open>
  A template none of whose elements carries a \<^verbatim>\<open>for\<close> directive, and helpers whose
  condition of a \<^verbatim>\<open>show\<close> directive never begins with a closing token: of the lines that
  \<^verbatim>\<open>compile\<close> joins into the code, none is blank, and none that ends in a comma comes
  right before one that begins with a closing token.
\<close>

lemma for_free_lines_tidy:
  assumes "list_all (for_free h) (parse h (normalize_template t))"
    and "\<And>s. \<not> starts_with_closing (addThisContext h s @ '' ?'')"
  shows "\<exists>c2. addNodes h (parse h (normalize_template t))
                 (initial_compiler (parse h (normalize_template t))) = Inr c2 \<and>
           compile h t = Inr (imports_set (drain c2), join_space (lines (drain c2))) \<and>
           tidy (lines (drain c2)) \<and> list_all (\<lambda>l. \<not> blank l) (lines (drain c2))"
proof -
  let ?ns = "parse h (normalize_template t)"
  have "kept_tidy (initial_compiler ?ns)"
    by (simp add: initial_compiler_def kept_tidy_def reset_def firm_def blank_def
        ends_with_comma_def starts_with_closing_def is_space_def)
  moreover from assms have "\<exists>c'. addNode h n c = Inr c' \<and> kept_tidy c' \<and> stack c' = stack c"
    if "n \<in> set ?ns" "kept_tidy c" for n c
    using that by (intro addNode_tidy) (auto simp: list_all_iff)
  ultimately obtain c2 where c2: "addNodes h ?ns (initial_compiler ?ns) = Inr c2" "kept_tidy c2"
    using addNodes_tidy_if[of ?ns h "initial_compiler ?ns"] by blast
  from kept_tidy_drain[OF c2(2)] have "tidy (lines (drain c2)) \<and>
      list_all (\<lambda>l. \<not> blank l) (lines (drain c2))"
    by (simp add: kept_tidy_def)
  moreover from c2(1) have "compile h t = Inr (imports_set (drain c2), join_space (lines (drain c2)))"
    by (simp add: compile_alt)
  ultimately show ?thesis using c2(1) by blast
qed

subsection \<open>The comma before a closing token (C7)\<close>

text \<open>
  One call of \<^verbatim>\<open>#addLineFromStack\<close>: when the line taken from the stack begins, after
  white space or none, with a closing token, and the last character of the last line is
  a comma, the comma is removed and the line taken is appended; when the last line does
  not end in a comma (followed by white space or none), or the line taken does not begin
  with a closing token, the last line stays as it is.
\<close>

lemma addLineFromStack_strips:
  assumes "stack c = x # rest" and "lines c = pre @ [l]"
  shows "(starts_with_closing x \<longrightarrow> (\<forall>a. l = a @ '','' \<longrightarrow>
            lines (addLineFromStack c) = pre @ [a, x])) \<and>
         (\<not> (ends_with_comma l \<and> starts_with_closing x) \<longrightarrow>
            lines (addLineFromStack c) = pre @ [l, x]) \<and>
         stack (addLineFromStack c) = rest"
proof -
  have ne: "lines c \<noteq> []" using assms(2) by simp
  have comma: "ends_with_comma (a @ '','')" for a
    by (simp add: ends_with_comma_def)
  from addLineFromStack_Cons[OF assms(1) ne] assms(2) comma show ?thesis
    by (auto simp: slice_end_def)
qed

text \<open>
  C7. For a template in which two sibling elements carry a \<^verbatim>\<open>for\<close> directive and
  a text follows them, as in \<^verbatim>\<open><li for="a in as"></li><li for="b in bs"></li>x\<close>, the
  code returned has a comma right before a closing token. The two elements cut both
  characters off the closing line that their parent (here the fragment) has put on the
  stack. When that line, now empty, is taken from the stack, it does not begin with a
  closing token, so that the comma of the text's line stays; and when the closing
  parenthesis is taken next, the last line is the empty one, which does not end in a
  comma. The code returned has the comma of the text's line before the closing
  parenthesis, with nothing but white space between them. (Lemma \<open>for_siblings_code\<close>
  shows it for any helpers; here are the example helpers.)
\<close>

theorem C7_separator_before_closing:
  "compile example_helpers template_lists =
     Inr ({''h'', ''hString'', ''hFragment''},
       ''function render() { return ( h(Fragment, {}, each(a in as) => h(li, {}, [ ])  each(b in bs) => h(li, {}, [ ]) ) hString(x),  ) }'') \<and>
   separator_before_closing
     ''function render() { return ( h(Fragment, {}, each(a in as) => h(li, {}, [ ])  each(b in bs) => h(li, {}, [ ]) ) hString(x),  ) }''"
  using example_compile_lists example_separator by simp

end
